theory Spec2Isabelle
  imports Complex_Main "HOL-Library.Sublist" "HOL-Library.Word"
begin

section \<open>Conversation history\<close>

text \<open>
  A history entry (\<^verbatim>\<open>Anthropic.Messages.MessageParam\<close>) has a role and a content.
  The context manager never inspects the content, so its type is left open.
\<close>

datatype role = User | Assistant

record 'c message =
  role :: role
  content :: 'c

text \<open>
  JavaScript array read \<^verbatim>\<open>xs[i]\<close>: an index below zero or beyond the end yields
  \<^verbatim>\<open>undefined\<close>, here \<open>None\<close>.
\<close>

definition nth_opt :: "'a list \<Rightarrow> int \<Rightarrow> 'a option" where
  "nth_opt xs i = (if 0 \<le> i \<and> i < int (length xs) then Some (xs ! nat i) else None)"

text \<open>
  \<^verbatim>\<open>Array.prototype.slice(start)\<close>: a negative start counts from the end (clamped at
  zero), a start beyond the end gives the empty array.
\<close>

definition slice_from :: "'a list \<Rightarrow> int \<Rightarrow> 'a list" where
  "slice_from xs start =
     (let len = int (length xs);
          k = (if start < 0 then max (len + start) 0 else min start len)
      in drop (nat k) xs)"

section \<open>Context manager (src/context/ContextManager.ts)\<close>

datatype keep = KeepNone | LastTwo | Half | Quarter

text \<open>
  The local variable \<^verbatim>\<open>messagesToRemove\<close> of \<^verbatim>\<open>getNextTruncationRange\<close>.
  \<^verbatim>\<open>Math.floor\<close> of a quotient of numbers is the floor of the real quotient.
\<close>

definition messagesToRemove :: "int \<Rightarrow> int \<Rightarrow> keep \<Rightarrow> int" where
  "messagesToRemove len startOfRest k =
     (case k of
        KeepNone \<Rightarrow> max (len - startOfRest) 0
      | LastTwo \<Rightarrow> max (len - startOfRest - 2) 0
      | Half \<Rightarrow> \<lfloor>real_of_int (len - startOfRest) / 4\<rfloor> * 2
      | Quarter \<Rightarrow> \<lfloor>real_of_int ((len - startOfRest) * 3) / 4 / 2\<rfloor> * 2)"

definition startOfRest :: "(int \<times> int) option \<Rightarrow> int" where
  "startOfRest currentDeletedRange =
     (case currentDeletedRange of Some (s, e) \<Rightarrow> e + 1 | None \<Rightarrow> 2)"

definition getNextTruncationRange ::
  "'c message list \<Rightarrow> (int \<times> int) option \<Rightarrow> keep \<Rightarrow> int \<times> int" where
  "getNextTruncationRange apiMessages currentDeletedRange k =
     (let rangeStartIndex = 2;
          sor = startOfRest currentDeletedRange;
          rangeEndIndex = sor + messagesToRemove (int (length apiMessages)) sor k - 1
      in if map_option role (nth_opt apiMessages rangeEndIndex) \<noteq> Some Assistant
         then (rangeStartIndex, rangeEndIndex - 1)
         else (rangeStartIndex, rangeEndIndex))"

text \<open>
  \<^verbatim>\<open>getTruncatedMessages\<close> only slices and concatenates, so it is defined for a list of
  anything; applied to the list of indices it tells which positions make up the view.
\<close>

definition getTruncatedMessages :: "'a list \<Rightarrow> (int \<times> int) option \<Rightarrow> 'a list" where
  "getTruncatedMessages messages deletedRange =
     (case deletedRange of
        None \<Rightarrow> messages
      | Some (s, e) \<Rightarrow>
          if length messages \<le> 1 then messages
          else take 2 messages @ slice_from messages (e + 1))"

subsection \<open>Basic facts\<close>

lemma messagesToRemove_div:
  "messagesToRemove len sor Half = (len - sor) div 4 * 2"
  "messagesToRemove len sor Quarter = ((len - sor) * 3) div 8 * 2"
  "messagesToRemove len sor KeepNone = max (len - sor) 0"
  "messagesToRemove len sor LastTwo = max (len - sor - 2) 0"
proof -
  have "\<lfloor>real_of_int (len - sor) / 4\<rfloor> = (len - sor) div 4"
    using floor_divide_of_int_eq [of "len - sor" 4, where ?'a = real] by simp
  then show "messagesToRemove len sor Half = (len - sor) div 4 * 2"
    by (simp add: messagesToRemove_def)
  have "real_of_int ((len - sor) * 3) / 4 / 2 = real_of_int ((len - sor) * 3) / of_int 8"
    by simp
  then have "\<lfloor>real_of_int ((len - sor) * 3) / 4 / 2\<rfloor> = ((len - sor) * 3) div 8"
    using floor_divide_of_int_eq [of "(len - sor) * 3" 8, where ?'a = real] by simp
  then show "messagesToRemove len sor Quarter = ((len - sor) * 3) div 8 * 2"
    by (simp add: messagesToRemove_def)
qed (simp_all add: messagesToRemove_def)

lemma messagesToRemove_nonneg:
  "sor \<le> len \<Longrightarrow> 0 \<le> messagesToRemove len sor k"
  by (cases k) (simp_all add: messagesToRemove_div)

lemma nth_opt_append_left:
  "nth_opt xs i = Some x \<Longrightarrow> nth_opt (xs @ ys) i = Some x"
  by (auto simp: nth_opt_def nth_append split: if_splits)

lemma slice_from_map: "slice_from (map f xs) i = map f (slice_from xs i)"
  by (simp add: slice_from_def Let_def drop_map)

lemma getTruncatedMessages_map:
  "getTruncatedMessages (map f xs) r = map f (getTruncatedMessages xs r)"
  by (cases r) (auto simp: getTruncatedMessages_def slice_from_map take_map)

section \<open>Truncation scenarios\<close>

text \<open>
  C3. A history of ten messages, user and assistant alternating from index 0, with
  arbitrary contents \<open>c0 \<dots> c9\<close>. Without a prior range, keep = half removes
  \<open>\<lfloor>(10 - 2) / 4\<rfloor> * 2 = 4\<close> messages and returns the range \<open>(2, 5)\<close>; the view under
  that range is the messages at indices 0, 1, 6, 7, 8, 9. With the prior range \<open>(2, 5)\<close>,
  keep = quarter removes \<open>\<lfloor>(10 - 6) * 3 / 4 / 2\<rfloor> * 2 = 2\<close> further messages and returns
  \<open>(2, 7)\<close>; the view under that range is the messages at indices 0, 1, 8, 9.
\<close>

theorem truncation_scenario_ten_messages:
  "(let h = [\<lparr>role = User, content = c0\<rparr>, \<lparr>role = Assistant, content = c1\<rparr>,
             \<lparr>role = User, content = c2\<rparr>, \<lparr>role = Assistant, content = c3\<rparr>,
             \<lparr>role = User, content = c4\<rparr>, \<lparr>role = Assistant, content = c5\<rparr>,
             \<lparr>role = User, content = c6\<rparr>, \<lparr>role = Assistant, content = c7\<rparr>,
             \<lparr>role = User, content = c8\<rparr>, \<lparr>role = Assistant, content = c9\<rparr>]
    in messagesToRemove 10 2 Half = 4
       \<and> getNextTruncationRange h None Half = (2, 5)
       \<and> getTruncatedMessages h (Some (2, 5)) = [h ! 0, h ! 1, h ! 6, h ! 7, h ! 8, h ! 9]
       \<and> length (getTruncatedMessages h (Some (2, 5))) = 6
       \<and> startOfRest (Some (2, 5)) = 6
       \<and> messagesToRemove 10 6 Quarter = 2
       \<and> getNextTruncationRange h (Some (2, 5)) Quarter = (2, 7)
       \<and> getTruncatedMessages h (Some (2, 7)) = [h ! 0, h ! 1, h ! 8, h ! 9]
       \<and> length (getTruncatedMessages h (Some (2, 7))) = 4)"
  by (simp add: getNextTruncationRange_def getTruncatedMessages_def startOfRest_def
      messagesToRemove_div nth_opt_def slice_from_def Let_def)

section \<open>Growth of the truncation range\<close>

text \<open>
  C4 as stated: the returned start index is always 2 and, feeding each returned range
  back into the next call, the end index never moves backwards. The second half fails
  on the history user, user, user, user, assistant, assistant (a turn with three tool
  results followed by a turn without tools): keep = half first returns \<open>(2, 2)\<close>, whose
  end sits on a user message, and the next call on the same history returns \<open>(2, 1)\<close>.
\<close>

definition three_tools_history :: "unit message list" where
  "three_tools_history =
     [\<lparr>role = User, content = ()\<rparr>, \<lparr>role = User, content = ()\<rparr>,
      \<lparr>role = User, content = ()\<rparr>, \<lparr>role = User, content = ()\<rparr>,
      \<lparr>role = Assistant, content = ()\<rparr>, \<lparr>role = Assistant, content = ()\<rparr>]"

theorem range_end_moves_back_counterexample:
  "getNextTruncationRange three_tools_history None Half = (2, 2)
   \<and> getNextTruncationRange three_tools_history
        (Some (getNextTruncationRange three_tools_history None Half)) Half = (2, 1)
   \<and> snd (getNextTruncationRange three_tools_history
             (Some (getNextTruncationRange three_tools_history None Half)) Half)
       < snd (getNextTruncationRange three_tools_history None Half)"
  by (simp add: three_tools_history_def getNextTruncationRange_def startOfRest_def
      messagesToRemove_div nth_opt_def Let_def)

text \<open>
  C4 as amended. The start index of every returned range is 2. When the message at the
  end index \<open>e\<close> of the prior range has the assistant role, the next range computed on
  the same history or on any extension of it (the history is append-only) ends at \<open>e\<close>
  or later, whatever the keep policy.
\<close>

theorem range_start_two_end_grows_from_assistant:
  "fst (getNextTruncationRange msgs cur k) = 2 \<and>
   (map_option role (nth_opt msgs e) = Some Assistant \<longrightarrow>
      e \<le> snd (getNextTruncationRange (msgs @ ext) (Some (s, e)) k))"
proof (intro conjI impI)
  show "fst (getNextTruncationRange msgs cur k) = 2"
    by (simp add: getNextTruncationRange_def Let_def)
next
  assume a: "map_option role (nth_opt msgs e) = Some Assistant"
  then obtain m where m: "nth_opt msgs e = Some m" "role m = Assistant"
    by auto
  then have inr: "0 \<le> e" "e < int (length msgs)"
    by (auto simp: nth_opt_def split: if_splits)
  have ext: "map_option role (nth_opt (msgs @ ext) e) = Some Assistant"
    using nth_opt_append_left [OF m(1), of ext] m(2) by simp
  define n where "n = messagesToRemove (int (length msgs) + int (length ext)) (e + 1) k"
  have "0 \<le> n"
    unfolding n_def using inr by (intro messagesToRemove_nonneg) simp
  then consider "n = 0" | "1 \<le> n" by linarith
  then show "e \<le> snd (getNextTruncationRange (msgs @ ext) (Some (s, e)) k)"
  proof cases
    case 1
    then show ?thesis
      using ext
      by (simp add: getNextTruncationRange_def startOfRest_def Let_def flip: n_def)
  next
    case 2
    then show ?thesis
      by (simp add: getNextTruncationRange_def startOfRest_def Let_def flip: n_def)
  qed
qed

theorem range_start_two_end_grows_from_assistant_witness:
  "(let h = [\<lparr>role = User, content = ()\<rparr>, \<lparr>role = Assistant, content = ()\<rparr>,
             \<lparr>role = User, content = ()\<rparr>, \<lparr>role = Assistant, content = ()\<rparr>,
             \<lparr>role = User, content = ()\<rparr>, \<lparr>role = Assistant, content = ()\<rparr>];
        ext = [\<lparr>role = User, content = ()\<rparr>, \<lparr>role = Assistant, content = ()\<rparr>,
               \<lparr>role = User, content = ()\<rparr>, \<lparr>role = Assistant, content = ()\<rparr>]
    in map_option role (nth_opt h 5) = Some Assistant
       \<and> fst (getNextTruncationRange h None Quarter) = 2
       \<and> 5 \<le> snd (getNextTruncationRange (h @ ext) (Some (2, 5)) Quarter)
       \<and> getNextTruncationRange (h @ ext) (Some (2, 5)) Quarter = (2, 7))"
proof -
  let ?h = "[\<lparr>role = User, content = ()\<rparr>, \<lparr>role = Assistant, content = ()\<rparr>,
             \<lparr>role = User, content = ()\<rparr>, \<lparr>role = Assistant, content = ()\<rparr>,
             \<lparr>role = User, content = ()\<rparr>, \<lparr>role = Assistant, content = ()\<rparr>]"
  let ?ext = "[\<lparr>role = User, content = ()\<rparr>, \<lparr>role = Assistant, content = ()\<rparr>,
               \<lparr>role = User, content = ()\<rparr>, \<lparr>role = Assistant, content = ()\<rparr>]"
  have hyp: "map_option role (nth_opt ?h 5) = Some Assistant"
    by (simp add: nth_opt_def)
  have val: "getNextTruncationRange (?h @ ?ext) (Some (2, 5)) Quarter = (2, 7)"
    by (simp add: getNextTruncationRange_def startOfRest_def messagesToRemove_div
        nth_opt_def Let_def)
  from range_start_two_end_grows_from_assistant [of ?h None Quarter 5 ?ext 2] hyp val
  show ?thesis by (simp add: Let_def)
qed

section \<open>A range that ends at index 0\<close>

text \<open>
  C10. For a history of at least two messages and a deleted range whose end index is 0,
  the view is the first two messages followed by everything from index 1 on, so the
  message at index 1 is at positions 1 and 2 of the view. Such a range is returned by
  \<^const>\<open>getNextTruncationRange\<close>: with no prior range, a removal count of 0 and a
  message at index 1 that is missing or not from the assistant, the result is \<open>(2, 0)\<close>.
\<close>

theorem range_end_zero_duplicates_second_message:
  "(2 \<le> length msgs \<longrightarrow>
      getTruncatedMessages msgs (Some (s, 0)) = take 2 msgs @ drop 1 msgs
      \<and> getTruncatedMessages msgs (Some (s, 0)) ! 1 = msgs ! 1
      \<and> getTruncatedMessages msgs (Some (s, 0)) ! 2 = msgs ! 1
      \<and> length (getTruncatedMessages msgs (Some (s, 0))) = length msgs + 1)
   \<and> (messagesToRemove (int (length hist)) 2 k = 0
        \<and> map_option role (nth_opt hist 1) \<noteq> Some Assistant \<longrightarrow>
      getNextTruncationRange hist None k = (2, 0))"
proof (intro conjI impI)
  assume len: "2 \<le> length msgs"
  then obtain a b rest where msgs: "msgs = a # b # rest"
    by (cases msgs; cases "tl msgs") auto
  show "getTruncatedMessages msgs (Some (s, 0)) = take 2 msgs @ drop 1 msgs"
    unfolding msgs by (simp add: getTruncatedMessages_def slice_from_def)
  show "getTruncatedMessages msgs (Some (s, 0)) ! 1 = msgs ! 1"
    unfolding msgs by (simp add: getTruncatedMessages_def slice_from_def)
  show "getTruncatedMessages msgs (Some (s, 0)) ! 2 = msgs ! 1"
    unfolding msgs by (simp add: getTruncatedMessages_def slice_from_def)
  show "length (getTruncatedMessages msgs (Some (s, 0))) = length msgs + 1"
    unfolding msgs by (simp add: getTruncatedMessages_def slice_from_def)
next
  assume "messagesToRemove (int (length hist)) 2 k = 0
            \<and> map_option role (nth_opt hist 1) \<noteq> Some Assistant"
  then show "getNextTruncationRange hist None k = (2, 0)"
    by (simp add: getNextTruncationRange_def startOfRest_def Let_def)
qed

theorem range_end_zero_duplicates_second_message_witness:
  "(let h = [\<lparr>role = User, content = (0::nat)\<rparr>, \<lparr>role = User, content = 1\<rparr>]
    in 2 \<le> length h
       \<and> messagesToRemove (int (length h)) 2 KeepNone = 0
       \<and> map_option role (nth_opt h 1) \<noteq> Some Assistant
       \<and> getNextTruncationRange h None KeepNone = (2, 0)
       \<and> getTruncatedMessages h (Some (getNextTruncationRange h None KeepNone))
            = [h ! 0, h ! 1, h ! 1])"
proof -
  let ?h = "[\<lparr>role = User, content = (0::nat)\<rparr>, \<lparr>role = User, content = 1\<rparr>]"
  have len: "2 \<le> length ?h" by simp
  have rem: "messagesToRemove (int (length ?h)) 2 KeepNone = 0"
    by (simp add: messagesToRemove_div)
  have rl: "map_option role (nth_opt ?h 1) \<noteq> Some Assistant"
    by (simp add: nth_opt_def)
  from range_end_zero_duplicates_second_message [of ?h 2 ?h KeepNone] len rem rl
  show ?thesis by (simp add: Let_def)
qed


section \<open>Strings\<close>

text \<open>
  A JavaScript string is a sequence of 16-bit code units. String literals of the source
  are written \<open>js ''...''\<close>.
\<close>

type_synonym code_unit = "16 word"

type_synonym jstring = "code_unit list"

abbreviation (input) js :: "string \<Rightarrow> jstring" where
  "js s \<equiv> map of_char s"

text \<open>\<^verbatim>\<open>String.prototype.includes\<close>: the argument occurs at some position.\<close>

fun str_includes :: "'a list \<Rightarrow> 'a list \<Rightarrow> bool" where
  "str_includes [] sub = (sub = [])"
| "str_includes (c # cs) sub = (prefix sub (c # cs) \<or> str_includes cs sub)"

text \<open>
  \<^verbatim>\<open>String.prototype.split\<close> for a separator of one code unit; an empty string splits
  into one empty part. A limit keeps the first parts only.
\<close>

fun split_char :: "'a \<Rightarrow> 'a list \<Rightarrow> 'a list list" where
  "split_char sep [] = [[]]"
| "split_char sep (c # cs) =
     (if c = sep then [] # split_char sep cs
      else (case split_char sep cs of p # ps \<Rightarrow> (c # p) # ps | [] \<Rightarrow> [[c]]))"

definition split_limit :: "'a \<Rightarrow> nat \<Rightarrow> 'a list \<Rightarrow> 'a list list" where
  "split_limit sep limit s = take limit (split_char sep s)"

definition slash :: code_unit where
  "slash = of_char CHR ''/''"

section \<open>Tool routing (Task.executeTool in src/task/Task.ts)\<close>

text \<open>
  The call that \<^verbatim>\<open>executeTool\<close> issues for a tool name: either \<^verbatim>\<open>mcpHub.callTool\<close>
  with the two destructured parts of \<^verbatim>\<open>toolName.split("/", 2)\<close> (a missing part would
  be \<^verbatim>\<open>undefined\<close>, here \<open>None\<close>), or \<^verbatim>\<open>toolRegistry.executeTool\<close> with the name as
  it is. The hub is an optional constructor argument of the Task; \<open>hasHub\<close> says whether
  it was given.
\<close>

datatype 'j tool_call =
    HubCallTool "jstring option" "jstring option" 'j
  | RegistryExecuteTool jstring 'j

definition toolCall :: "bool \<Rightarrow> jstring \<Rightarrow> 'j \<Rightarrow> 'j tool_call" where
  "toolCall hasHub toolName args =
     (if hasHub \<and> str_includes toolName (js ''/'')
      then (let parts = split_limit slash 2 toolName
            in HubCallTool (nth_opt parts 0) (nth_opt parts 1) args)
      else RegistryExecuteTool toolName args)"

subsection \<open>Facts about splitting\<close>

lemma str_includes_single: "str_includes s [c] \<longleftrightarrow> c \<in> set s"
  by (induction s) auto

lemma split_char_not_Nil: "split_char sep s \<noteq> []"
  by (induction s) (auto split: list.splits)

lemma split_char_no_sep: "sep \<notin> set s \<Longrightarrow> split_char sep s = [s]"
  by (induction s) auto

lemma split_char_append_sep:
  "sep \<notin> set a \<Longrightarrow> split_char sep (a @ sep # t) = a # split_char sep t"
  by (induction a) auto

lemma split_at_first_sep:
  "sep \<in> set s \<Longrightarrow>
     s = takeWhile (\<lambda>c. c \<noteq> sep) s @ sep # tl (dropWhile (\<lambda>c. c \<noteq> sep) s)"
  by (induction s) auto

lemma hd_split_char: "hd (split_char sep s) = takeWhile (\<lambda>c. c \<noteq> sep) s"
  by (induction s) (auto split: list.splits simp: split_char_not_Nil)

lemma split_limit_two:
  assumes "sep \<in> set s"
  shows "split_limit sep 2 s =
           [takeWhile (\<lambda>c. c \<noteq> sep) s,
            takeWhile (\<lambda>c. c \<noteq> sep) (tl (dropWhile (\<lambda>c. c \<noteq> sep) s))]"
proof -
  let ?a = "takeWhile (\<lambda>c. c \<noteq> sep) s"
  let ?t = "tl (dropWhile (\<lambda>c. c \<noteq> sep) s)"
  have "sep \<notin> set ?a"
    by (auto dest: set_takeWhileD)
  then have "split_char sep (?a @ sep # ?t) = ?a # split_char sep ?t"
    by (rule split_char_append_sep)
  then have sp: "split_char sep s = ?a # split_char sep ?t"
    using split_at_first_sep [OF assms] by simp
  obtain p ps where pps: "split_char sep ?t = p # ps"
    using split_char_not_Nil [of sep ?t] by (cases "split_char sep ?t") auto
  then have "p = takeWhile (\<lambda>c. c \<noteq> sep) ?t"
    using hd_split_char [of sep ?t] by simp
  then show ?thesis
    by (simp add: split_limit_def sp pps)
qed

lemma toolCall_hub:
  assumes "slash \<in> set toolName"
  shows "toolCall True toolName args =
           HubCallTool (Some (takeWhile (\<lambda>c. c \<noteq> slash) toolName))
             (Some (takeWhile (\<lambda>c. c \<noteq> slash) (tl (dropWhile (\<lambda>c. c \<noteq> slash) toolName))))
             args"
proof -
  have inc: "str_includes toolName (js ''/'')"
    using assms by (simp add: str_includes_single slash_def)
  show ?thesis
    by (simp only: toolCall_def inc split_limit_two [OF assms] Let_def)
       (simp add: nth_opt_def)
qed

section \<open>Routing of namespaced tool names\<close>

text \<open>
  C5 as stated: every name containing the separator goes to the hub and never to the
  local registry. A Task built without a hub (the constructor's second argument is
  optional, and the core passes none when no server is configured) sends
  \<^verbatim>\<open>"fs/read_file"\<close> to the local registry under its full name.
\<close>

theorem namespaced_name_without_hub_counterexample:
  "toolCall False (js ''fs/read_file'') () = RegistryExecuteTool (js ''fs/read_file'') ()
   \<and> str_includes (js ''fs/read_file'') (js ''/'')"
  by (simp add: toolCall_def)

text \<open>
  C5 as amended. When the Task has a hub, every tool name containing \<^verbatim>\<open>"/"\<close> is sent to
  the hub's \<^verbatim>\<open>callTool\<close>, the server name being the text before the first separator and
  the tool name the text between the first separator and the next one (or the end), so
  \<^verbatim>\<open>"fs/read_file"\<close> becomes \<^verbatim>\<open>callTool("fs", "read_file", args)\<close>. A name without a
  separator, and every name when the Task has no hub, is resolved against the local
  registry under the full name.
\<close>

theorem routing_by_separator_with_hub:
  "(slash \<in> set toolName \<longrightarrow>
      toolCall True toolName args =
        HubCallTool (Some (takeWhile (\<lambda>c. c \<noteq> slash) toolName))
          (Some (takeWhile (\<lambda>c. c \<noteq> slash) (tl (dropWhile (\<lambda>c. c \<noteq> slash) toolName))))
          args)
   \<and> (slash \<notin> set toolName \<longrightarrow>
        toolCall hasHub toolName args = RegistryExecuteTool toolName args)
   \<and> toolCall False toolName args = RegistryExecuteTool toolName args
   \<and> toolCall True (js ''fs/read_file'') args
        = HubCallTool (Some (js ''fs'')) (Some (js ''read_file'')) args"
proof (intro conjI impI)
  assume "slash \<in> set toolName"
  then show "toolCall True toolName args =
        HubCallTool (Some (takeWhile (\<lambda>c. c \<noteq> slash) toolName))
          (Some (takeWhile (\<lambda>c. c \<noteq> slash) (tl (dropWhile (\<lambda>c. c \<noteq> slash) toolName))))
          args"
    by (rule toolCall_hub)
next
  assume "slash \<notin> set toolName"
  then show "toolCall hasHub toolName args = RegistryExecuteTool toolName args"
    by (simp add: toolCall_def str_includes_single slash_def)
next
  show "toolCall False toolName args = RegistryExecuteTool toolName args"
    by (simp add: toolCall_def)
next
  show "toolCall True (js ''fs/read_file'') args
          = HubCallTool (Some (js ''fs'')) (Some (js ''read_file'')) args"
    by (simp add: toolCall_def split_limit_def slash_def nth_opt_def)
qed

theorem routing_by_separator_with_hub_witness:
  "slash \<in> set (js ''git/status'')
   \<and> toolCall True (js ''git/status'') ()
        = HubCallTool (Some (js ''git'')) (Some (js ''status'')) ()
   \<and> slash \<notin> set (js ''read_file'')
   \<and> toolCall True (js ''read_file'') () = RegistryExecuteTool (js ''read_file'') ()"
proof -
  have a: "slash \<in> set (js ''git/status'')" by (simp add: slash_def)
  have b: "slash \<notin> set (js ''read_file'')" by (simp add: slash_def)
  from routing_by_separator_with_hub [of "js ''git/status''" "()" True]
       routing_by_separator_with_hub [of "js ''read_file''" "()" True] a b
  show ?thesis by (simp add: slash_def)
qed

text \<open>
  C9 as stated: a name with two or more separators always reaches the hub as
  (first part, second part) and its tail is never forwarded to the local registry.
  Without a hub the whole name \<^verbatim>\<open>"a/b/c"\<close>, tail included, is what the local registry
  receives.
\<close>

theorem two_separators_without_hub_counterexample:
  "toolCall False (js ''a/b/c'') () = RegistryExecuteTool (js ''a/b/c'') ()"
  by (simp add: toolCall_def)

text \<open>
  C9 as amended. When the Task has a hub, a tool name \<open>a / b / rest\<close> (with no separator
  in \<open>a\<close> or \<open>b\<close>) is sent to the hub's \<^verbatim>\<open>callTool\<close> with server name \<open>a\<close> and tool name
  \<open>b\<close>, whatever \<open>rest\<close> is: the call does not depend on the text after the second
  separator, and nothing is sent to the local registry.
\<close>

theorem two_separators_tail_dropped_with_hub:
  "slash \<notin> set a \<and> slash \<notin> set b \<longrightarrow>
     toolCall True (a @ slash # b @ slash # rest) args = HubCallTool (Some a) (Some b) args"
proof
  assume ab: "slash \<notin> set a \<and> slash \<notin> set b"
  have "split_char slash (a @ slash # b @ slash # rest)
          = a # b # split_char slash rest"
    using ab by (simp add: split_char_append_sep)
  then have parts: "split_limit slash 2 (a @ slash # b @ slash # rest) = [a, b]"
    by (simp add: split_limit_def)
  have inc: "str_includes (a @ slash # b @ slash # rest) (js ''/'')"
    by (simp add: str_includes_single slash_def)
  show "toolCall True (a @ slash # b @ slash # rest) args = HubCallTool (Some a) (Some b) args"
    by (simp only: toolCall_def inc parts Let_def) (simp add: nth_opt_def)
qed

theorem two_separators_tail_dropped_with_hub_witness:
  "slash \<notin> set (js ''a'') \<and> slash \<notin> set (js ''b'')
   \<and> toolCall True (js ''a/b/c'') () = HubCallTool (Some (js ''a'')) (Some (js ''b'')) ()"
proof -
  have h: "slash \<notin> set (js ''a'') \<and> slash \<notin> set (js ''b'')" by (simp add: slash_def)
  from two_separators_tail_dropped_with_hub [of "js ''a''" "js ''b''" "js ''c''" "()"] h
  show ?thesis by (simp add: slash_def)
qed


section \<open>Capability hub (src/mcp/McpHub.ts)\<close>

text \<open>
  \<^verbatim>\<open>McpServer\<close> and \<^verbatim>\<open>McpConnection\<close> of src/mcp/types.ts. The stored configuration is
  the serialised one (type \<open>'s\<close>); catalog entries are left abstract (type \<open>'k\<close>); an
  optional field that is \<^verbatim>\<open>undefined\<close> is \<open>None\<close>. Of the client and the transport only
  whether they are non-null matters to the hub (the placeholder of a disabled server has
  neither).
\<close>

datatype conn_status = Connected | Connecting | Disconnected

record ('s, 'k) McpServer =
  name :: jstring
  config :: 's
  status :: conn_status
  disabled :: "bool option"
  error :: "jstring option"
  tools :: "'k list option"
  resources :: "'k list option"
  resourceTemplates :: "'k list option"

record ('s, 'k) McpConnection =
  server :: "('s, 'k) McpServer"
  client :: bool
  transport :: bool

text \<open>
  What the hub does to the world outside it, in the order it happens: closing the
  transport of a server's connection (\<^verbatim>\<open>transport.close()\<close>), closing its client
  (\<^verbatim>\<open>client.close()\<close>), and attempting to connect to a server with a configuration
  (building the client and the transport and calling \<^verbatim>\<open>client.connect\<close>). The hub state
  is the connection list, the reconciliation flag, and the log of these effects.
\<close>

datatype 'c hub_effect =
    TransportClose jstring
  | ClientClose jstring
  | ConnectAttempt jstring 'c

record ('c, 's, 'k) McpHub =
  connections :: "('s, 'k) McpConnection list"
  isConnecting :: bool
  effects :: "'c hub_effect list"

text \<open>
  What the hub does with a configuration value of type \<open>'c\<close>, taken as given:
  \<^verbatim>\<open>JSON.stringify\<close>, \<^verbatim>\<open>JSON.parse\<close>, \<^verbatim>\<open>deepEqual\<close> (fast-deep-equal) and the
  optional field \<^verbatim>\<open>config.disabled\<close>.
\<close>

record ('c, 's) config_ops =
  stringify :: "'c \<Rightarrow> 's"
  parse :: "'s \<Rightarrow> 'c"
  deepEqual :: "'c \<Rightarrow> 'c \<Rightarrow> bool"
  config_disabled :: "'c \<Rightarrow> bool option"

text \<open>
  What a connection attempt for an enabled server can do: throw before the connection
  record is pushed (unknown transport type, a transport that fails to start), throw from
  \<^verbatim>\<open>client.connect\<close> after the push, or succeed, followed by the three catalog
  fetches (each fetch returns the empty list on failure). The world decides from the
  effects so far, the attempt being the last one; it also decides whether closing a
  transport throws.
\<close>

datatype 'k connect_outcome =
    SetupThrows jstring
  | ConnectThrows jstring
  | ConnectOk "'k list" "'k list" "'k list"

record ('c, 'k) hub_env =
  connect_outcome :: "'c hub_effect list \<Rightarrow> 'k connect_outcome"
  transport_close_throws :: "'c hub_effect list \<Rightarrow> bool"

definition findConnection ::
  "('c, 's, 'k) McpHub \<Rightarrow> jstring \<Rightarrow> ('s, 'k) McpConnection option" where
  "findConnection hub nm = find (\<lambda>conn. name (server conn) = nm) (connections hub)"

text \<open>
  \<^verbatim>\<open>deleteConnection\<close>: if the server has a connection, its transport is closed if there
  is one, then its client if there is one; a close that throws ends the \<^verbatim>\<open>try\<close> block
  (so a throwing transport leaves the client unclosed) and is logged to the console. The
  connection is filtered out in either case.
\<close>

definition deleteConnection ::
  "('c, 'k) hub_env \<Rightarrow> ('c, 's, 'k) McpHub \<Rightarrow> jstring \<Rightarrow> ('c, 's, 'k) McpHub" where
  "deleteConnection env hub nm =
     (case findConnection hub nm of
        None \<Rightarrow> hub
      | Some connection \<Rightarrow>
          (let hub1 = (if transport connection
                       then hub\<lparr>effects := effects hub @ [TransportClose nm]\<rparr> else hub);
               threw = (transport connection \<and> transport_close_throws env (effects hub1));
               hub2 = (if \<not> threw \<and> client connection
                       then hub1\<lparr>effects := effects hub1 @ [ClientClose nm]\<rparr> else hub1)
           in hub2\<lparr>connections :=
                     filter (\<lambda>conn. name (server conn) \<noteq> nm) (connections hub2)\<rparr>))"

definition appendErrorMessage :: "jstring option \<Rightarrow> jstring \<Rightarrow> jstring option" where
  "appendErrorMessage old err =
     (case old of
        None \<Rightarrow> Some err
      | Some e \<Rightarrow> if e = [] then Some err else Some (e @ js ''\<newline>'' @ err))"

text \<open>
  \<^verbatim>\<open>connectToServer\<close> returns the error it throws, if any, and the new hub state. A
  configuration marked disabled gets a placeholder record and no attempt is made. The
  handler for a failed attempt marks the pushed connection disconnected and appends the
  message to its error text.
\<close>

definition connectToServer ::
  "('c, 's) config_ops \<Rightarrow> ('c, 'k) hub_env \<Rightarrow>
   ('c, 's, 'k) McpHub \<Rightarrow> jstring \<Rightarrow> 'c \<Rightarrow> jstring option \<times> ('c, 's, 'k) McpHub" where
  "connectToServer ops env hub nm cfg =
     (let hub0 = hub\<lparr>connections :=
                       filter (\<lambda>conn. name (server conn) \<noteq> nm) (connections hub)\<rparr>
      in if config_disabled ops cfg = Some True
         then (None,
               hub0\<lparr>connections := connections hub0 @
                 [\<lparr>server = \<lparr>name = nm, config = stringify ops cfg, status = Disconnected,
                              disabled = Some True, error = None, tools = None,
                              resources = None, resourceTemplates = None\<rparr>,
                   client = False, transport = False\<rparr>]\<rparr>)
         else
           (let hub1 = hub0\<lparr>effects := effects hub0 @ [ConnectAttempt nm cfg]\<rparr>;
                fresh = \<lparr>name = nm, config = stringify ops cfg, status = Connecting,
                          disabled = config_disabled ops cfg, error = None, tools = None,
                          resources = None, resourceTemplates = None\<rparr>
            in case connect_outcome env (effects hub1) of
                 SetupThrows msg \<Rightarrow> (Some msg, hub1)
               | ConnectThrows msg \<Rightarrow>
                   (Some msg,
                    hub1\<lparr>connections := connections hub1 @
                      [\<lparr>server = fresh\<lparr>status := Disconnected,
                                          error := appendErrorMessage (error fresh) msg\<rparr>,
                        client = True, transport = True\<rparr>]\<rparr>)
               | ConnectOk ts rs rts \<Rightarrow>
                   (None,
                    hub1\<lparr>connections := connections hub1 @
                      [\<lparr>server = fresh\<lparr>status := Connected, error := Some [],
                                          tools := Some ts, resources := Some rs,
                                          resourceTemplates := Some rts\<rparr>,
                        client = True, transport = True\<rparr>]\<rparr>)))"

text \<open>
  \<^verbatim>\<open>updateServerConnections\<close>. The names of the current connections are collected in a
  \<^verbatim>\<open>Set\<close>, which iterates in order of first insertion; the new configuration set is an
  object, given here by its entries in iteration order. The first loop deletes the
  servers that are gone, the second loop adds or updates; errors thrown by
  \<^verbatim>\<open>connectToServer\<close> are caught and logged to the console.
\<close>

definition currentNames :: "('c, 's, 'k) McpHub \<Rightarrow> jstring list" where
  "currentNames hub = rev (remdups (rev (map (\<lambda>conn. name (server conn)) (connections hub))))"

definition deleteRemoved ::
  "('c, 'k) hub_env \<Rightarrow> jstring list \<Rightarrow> ('c, 's, 'k) McpHub \<Rightarrow> jstring \<Rightarrow> ('c, 's, 'k) McpHub" where
  "deleteRemoved env newNames hub nm =
     (if nm \<notin> set newNames then deleteConnection env hub nm else hub)"

definition updateOrAdd ::
  "('c, 's) config_ops \<Rightarrow> ('c, 'k) hub_env \<Rightarrow>
   ('c, 's, 'k) McpHub \<Rightarrow> jstring \<times> 'c \<Rightarrow> ('c, 's, 'k) McpHub" where
  "updateOrAdd ops env hub entry =
     (case entry of (nm, cfg) \<Rightarrow>
        (case findConnection hub nm of
           None \<Rightarrow> snd (connectToServer ops env hub nm cfg)
         | Some currentConnection \<Rightarrow>
             if \<not> deepEqual ops (parse ops (config (server currentConnection))) cfg
             then snd (connectToServer ops env (deleteConnection env hub nm) nm cfg)
             else hub))"

definition updateServerConnections ::
  "('c, 's) config_ops \<Rightarrow> ('c, 'k) hub_env \<Rightarrow>
   ('c, 's, 'k) McpHub \<Rightarrow> (jstring \<times> 'c) list \<Rightarrow> ('c, 's, 'k) McpHub" where
  "updateServerConnections ops env hub newServers =
     (let hub1 = hub\<lparr>isConnecting := True\<rparr>;
          newNames = map fst newServers;
          hub2 = foldl (deleteRemoved env newNames) hub1 (currentNames hub1);
          hub3 = foldl (updateOrAdd ops env) hub2 newServers
      in hub3\<lparr>isConnecting := False\<rparr>)"

text \<open>The connections of all servers but one, in their stored order.\<close>

abbreviation (input) others ::
  "jstring \<Rightarrow> ('s, 'k) McpConnection list \<Rightarrow> ('s, 'k) McpConnection list" where
  "others nm conns \<equiv> filter (\<lambda>conn. name (server conn) \<noteq> nm) conns"

subsection \<open>Effects of the hub operations\<close>

lemma find_filter_other:
  "nm \<noteq> fs \<Longrightarrow> find (\<lambda>conn. name (server conn) = nm) (others fs conns)
                   = find (\<lambda>conn. name (server conn) = nm) conns"
  by (induction conns) auto

lemma find_append_other:
  "name (server c) \<noteq> nm \<Longrightarrow> find (\<lambda>conn. name (server conn) = nm) (conns @ [c])
                   = find (\<lambda>conn. name (server conn) = nm) conns"
  by (induction conns) auto

lemma deleteConnection_found:
  assumes "findConnection hub nm = Some cur"
  shows "effects (deleteConnection env hub nm)
           = effects hub
             @ (if transport cur then [TransportClose nm] else [])
             @ (if client cur \<and> \<not> (transport cur
                    \<and> transport_close_throws env (effects hub @ [TransportClose nm]))
                then [ClientClose nm] else [])"
    and "connections (deleteConnection env hub nm) = others nm (connections hub)"
    and "isConnecting (deleteConnection env hub nm) = isConnecting hub"
  using assms by (auto simp: deleteConnection_def Let_def)

lemma deleteConnection_find_other:
  "nm' \<noteq> nm \<Longrightarrow> findConnection (deleteConnection env hub nm) nm' = findConnection hub nm'"
  by (simp add: deleteConnection_def Let_def findConnection_def find_filter_other
      split: option.splits)

lemma connectToServer_effects:
  "effects (snd (connectToServer ops env hub nm cfg))
     = effects hub @ (if config_disabled ops cfg = Some True then [] else [ConnectAttempt nm cfg])"
  by (simp add: connectToServer_def Let_def split: connect_outcome.splits)

lemma connectToServer_connections:
  "connections (snd (connectToServer ops env hub nm cfg))
     = others nm (connections hub)
       @ (if config_disabled ops cfg = Some True
          then [\<lparr>server = \<lparr>name = nm, config = stringify ops cfg, status = Disconnected,
                             disabled = Some True, error = None, tools = None,
                             resources = None, resourceTemplates = None\<rparr>,
                  client = False, transport = False\<rparr>]
          else (case connect_outcome env (effects hub @ [ConnectAttempt nm cfg]) of
                  SetupThrows msg \<Rightarrow> []
                | ConnectThrows msg \<Rightarrow>
                    [\<lparr>server = \<lparr>name = nm, config = stringify ops cfg, status = Disconnected,
                                 disabled = config_disabled ops cfg, error = Some msg,
                                 tools = None, resources = None, resourceTemplates = None\<rparr>,
                      client = True, transport = True\<rparr>]
                | ConnectOk ts rs rts \<Rightarrow>
                    [\<lparr>server = \<lparr>name = nm, config = stringify ops cfg, status = Connected,
                                 disabled = config_disabled ops cfg, error = Some [],
                                 tools = Some ts, resources = Some rs,
                                 resourceTemplates = Some rts\<rparr>,
                      client = True, transport = True\<rparr>]))"
  by (simp add: connectToServer_def Let_def appendErrorMessage_def split: connect_outcome.splits)

lemma connectToServer_isConnecting:
  "isConnecting (snd (connectToServer ops env hub nm cfg)) = isConnecting hub"
  by (simp add: connectToServer_def Let_def split: connect_outcome.splits)

lemma connectToServer_find_other:
  "nm' \<noteq> nm \<Longrightarrow> findConnection (snd (connectToServer ops env hub nm cfg)) nm' = findConnection hub nm'"
  by (simp add: connectToServer_def Let_def findConnection_def find_filter_other find_append_other
      split: connect_outcome.splits)

lemma deleteRemoved_noop:
  "\<forall>nm \<in> set names. nm \<in> set newNames \<Longrightarrow>
     foldl (deleteRemoved env newNames) hub names = hub"
  by (induction names arbitrary: hub) (simp_all add: deleteRemoved_def)

lemma updateOrAdd_unchanged:
  assumes "findConnection hub nm = Some cur"
    and "deepEqual ops (parse ops (config (server cur))) cfg"
  shows "updateOrAdd ops env hub (nm, cfg) = hub"
  using assms by (simp add: updateOrAdd_def)

lemma updateOrAdd_all_unchanged:
  assumes "\<forall>(nm, cfg) \<in> set entries.
             \<exists>cur. findConnection hub nm = Some cur
                   \<and> deepEqual ops (parse ops (config (server cur))) cfg"
  shows "foldl (updateOrAdd ops env) hub entries = hub"
  using assms
proof (induction entries)
  case Nil
  then show ?case by simp
next
  case (Cons e entries)
  obtain nm cfg where e: "e = (nm, cfg)" by (cases e)
  from Cons.prems obtain cur where
    "findConnection hub nm = Some cur" "deepEqual ops (parse ops (config (server cur))) cfg"
    unfolding e by auto
  then have "updateOrAdd ops env hub e = hub"
    unfolding e by (rule updateOrAdd_unchanged)
  with Cons show ?case by simp
qed

lemma updateOrAdd_changed:
  assumes "findConnection hub fs = Some cur"
    and "\<not> deepEqual ops (parse ops (config (server cur))) cfg"
  shows "updateOrAdd ops env hub (fs, cfg)
           = snd (connectToServer ops env (deleteConnection env hub fs) fs cfg)"
  using assms by (simp add: updateOrAdd_def)

lemma findConnection_present:
  assumes "nm \<in> set (map (\<lambda>conn. name (server conn)) (connections hub))"
  obtains cur where "findConnection hub nm = Some cur" "cur \<in> set (connections hub)"
    "name (server cur) = nm"
proof -
  from assms have "\<exists>c \<in> set (connections hub). name (server c) = nm" by auto
  then have "find (\<lambda>conn. name (server conn) = nm) (connections hub) \<noteq> None"
    by (auto simp: find_None_iff)
  then obtain cur where f: "find (\<lambda>conn. name (server conn) = nm) (connections hub) = Some cur"
    by auto
  then have "cur \<in> set (connections hub)" "name (server cur) = nm"
    by (auto simp: find_Some_iff)
  with f show ?thesis
    by (intro that [of cur]) (simp_all add: findConnection_def)
qed

text \<open>
  With the same servers on both sides and only \<open>fs\<close> changed, the whole reconciliation
  is one deletion of \<open>fs\<close> followed by one call of \<^verbatim>\<open>connectToServer\<close> for it.
\<close>

lemma update_one_changed:
  assumes keys: "distinct (map fst newServers)"
    and same: "set (map (\<lambda>conn. name (server conn)) (connections hub)) = set (map fst newServers)"
    and entry: "(fs, cfg') \<in> set newServers"
    and cur: "findConnection hub fs = Some cur"
    and changed: "\<not> deepEqual ops (parse ops (config (server cur))) cfg'"
    and equal: "\<forall>conn \<in> set (connections hub). \<forall>cfg. name (server conn) \<noteq> fs \<longrightarrow>
                    (name (server conn), cfg) \<in> set newServers \<longrightarrow>
                    deepEqual ops (parse ops (config (server conn))) cfg"
  shows "updateServerConnections ops env hub newServers
           = (snd (connectToServer ops env
                     (deleteConnection env (hub\<lparr>isConnecting := True\<rparr>) fs) fs cfg'))
             \<lparr>isConnecting := False\<rparr>"
proof -
  let ?hub1 = "hub\<lparr>isConnecting := True\<rparr>"
  have fc1: "findConnection ?hub1 nm = findConnection hub nm" for nm
    by (simp add: findConnection_def)
  have "foldl (deleteRemoved env (map fst newServers)) ?hub1 (currentNames ?hub1) = ?hub1"
    by (rule deleteRemoved_noop) (use same in \<open>auto simp: currentNames_def\<close>)
  then have upd: "updateServerConnections ops env hub newServers
                    = (foldl (updateOrAdd ops env) ?hub1 newServers)\<lparr>isConnecting := False\<rparr>"
    by (simp add: updateServerConnections_def Let_def)
  from entry obtain pre post where split: "newServers = pre @ (fs, cfg') # post"
    by (auto simp: in_set_conv_decomp)
  have nfs: "nm \<noteq> fs" if "(nm, cfg) \<in> set pre \<union> set post" for nm cfg
    using keys that unfolding split by (auto simp: rev_image_eqI)
  have unchanged: "\<exists>c. findConnection hub nm = Some c
                        \<and> deepEqual ops (parse ops (config (server c))) cfg"
    if "(nm, cfg) \<in> set pre \<union> set post" for nm cfg
  proof -
    have mem: "(nm, cfg) \<in> set newServers" using that unfolding split by auto
    then have "nm \<in> set (map (\<lambda>conn. name (server conn)) (connections hub))"
      unfolding same by (auto simp: rev_image_eqI)
    then obtain c where c: "findConnection hub nm = Some c" "c \<in> set (connections hub)"
      "name (server c) = nm"
      by (rule findConnection_present)
    with equal mem nfs [OF that] show ?thesis by auto
  qed
  have pre: "foldl (updateOrAdd ops env) ?hub1 pre = ?hub1"
    by (rule updateOrAdd_all_unchanged) (use unchanged in \<open>auto simp: fc1\<close>)
  let ?hub2 = "snd (connectToServer ops env (deleteConnection env ?hub1 fs) fs cfg')"
  have cur1: "findConnection ?hub1 fs = Some cur" using cur by (simp add: fc1)
  have step: "updateOrAdd ops env ?hub1 (fs, cfg') = ?hub2"
    by (rule updateOrAdd_changed [OF cur1 changed])
  have post: "foldl (updateOrAdd ops env) ?hub2 post = ?hub2"
  proof (rule updateOrAdd_all_unchanged, clarify)
    fix nm cfg
    assume mem: "(nm, cfg) \<in> set post"
    then have "nm \<noteq> fs" using nfs by auto
    then have "findConnection ?hub2 nm = findConnection hub nm"
      by (simp add: connectToServer_find_other deleteConnection_find_other fc1)
    with unchanged [of nm cfg] mem
    show "\<exists>c. findConnection ?hub2 nm = Some c
                \<and> deepEqual ops (parse ops (config (server c))) cfg"
      by simp
  qed
  have "foldl (updateOrAdd ops env) ?hub1 newServers = ?hub2"
    by (simp add: split pre step post)
  then show ?thesis by (simp only: upd)
qed

section \<open>Reconciliation after one changed configuration\<close>

text \<open>
  A hub with live connections to two servers, \<^verbatim>\<open>fs\<close> and \<^verbatim>\<open>git\<close>. A configuration is
  a number and its \<^verbatim>\<open>disabled\<close> flag, serialised as itself and compared by equality. Every
  connection attempt succeeds, with empty catalogs, and no close throws.
\<close>

definition flag_ops :: "(nat \<times> bool, nat \<times> bool) config_ops" where
  "flag_ops = \<lparr>stringify = (\<lambda>c. c), parse = (\<lambda>s. s), deepEqual = (=),
                config_disabled = (\<lambda>c. Some (snd c))\<rparr>"

definition reachable_env :: "(nat \<times> bool, unit) hub_env" where
  "reachable_env = \<lparr>connect_outcome = (\<lambda>trace. ConnectOk [] [] []),
                     transport_close_throws = (\<lambda>trace. False)\<rparr>"

definition live_connection :: "jstring \<Rightarrow> nat \<times> bool \<Rightarrow> (nat \<times> bool, unit) McpConnection" where
  "live_connection nm cfg =
     \<lparr>server = \<lparr>name = nm, config = cfg, status = Connected, disabled = Some False,
                 error = Some [], tools = Some [], resources = Some [],
                 resourceTemplates = Some []\<rparr>,
      client = True, transport = True\<rparr>"

definition two_servers_hub :: "(nat \<times> bool, nat \<times> bool, unit) McpHub" where
  "two_servers_hub =
     \<lparr>connections = [live_connection (js ''fs'') (1, False),
                      live_connection (js ''git'') (2, False)],
      isConnecting = False, effects = []\<rparr>"

text \<open>
  C8 as stated: the server whose configuration changed is disconnected and then
  reconnected. The new configuration of \<^verbatim>\<open>fs\<close> differs from the stored one in its
  \<^verbatim>\<open>disabled\<close> flag, now set; the configuration of \<^verbatim>\<open>git\<close> is the stored one. The hub
  closes the transport and the client of \<^verbatim>\<open>fs\<close> and makes no connection attempt: what it
  then holds for \<^verbatim>\<open>fs\<close> is a disconnected placeholder with neither client nor transport.
\<close>

theorem disabled_config_not_reconnected_counterexample:
  "effects (updateServerConnections flag_ops reachable_env two_servers_hub
              [(js ''fs'', (1, True)), (js ''git'', (2, False))])
     = [TransportClose (js ''fs''), ClientClose (js ''fs'')]
   \<and> findConnection (updateServerConnections flag_ops reachable_env two_servers_hub
                       [(js ''fs'', (1, True)), (js ''git'', (2, False))]) (js ''fs'')
     = Some \<lparr>server = \<lparr>name = js ''fs'', config = (1, True), status = Disconnected,
                        disabled = Some True, error = None, tools = None,
                        resources = None, resourceTemplates = None\<rparr>,
             client = False, transport = False\<rparr>"
  by (simp add: updateServerConnections_def currentNames_def deleteRemoved_def
      updateOrAdd_def findConnection_def deleteConnection_def connectToServer_def Let_def
      flag_ops_def reachable_env_def two_servers_hub_def live_connection_def)

text \<open>
  C8 as amended. The hub holds connections for exactly the servers of the new
  configuration set (whose keys are distinct, as those of an object are). The stored
  configuration of the connection \<open>cur\<close> that the hub finds for server \<open>fs\<close> differs from
  its new value \<open>cfg'\<close> under the deep comparison; every other server's stored
  configuration equals its new value. Then \<^const>\<open>updateServerConnections\<close> has exactly
  these effects, in this order: it closes the transport of \<open>cur\<close> (if it has one), closes
  the client of \<open>cur\<close> (if it has one, and unless closing the transport threw), and, unless
  \<open>cfg'\<close> is marked disabled, makes one connection attempt for \<open>fs\<close> with \<open>cfg'\<close>.
  Afterwards the connections of all other servers are what they were before, record by
  record and in the same order, and they are followed by what the hub now holds for
  \<open>fs\<close>: for a disabled \<open>cfg'\<close> a disconnected placeholder with neither client nor
  transport; otherwise nothing if the attempt failed before the connection was stored,
  a disconnected connection that carries the error message if \<^verbatim>\<open>client.connect\<close>
  threw, and a connected one with the fetched catalogs if it succeeded, each with the
  serialised \<open>cfg'\<close> as stored configuration. The reconciliation flag is cleared.
\<close>

theorem changed_config_closes_then_connects_once:
  assumes keys: "distinct (map fst newServers)"
    and same: "set (map (\<lambda>conn. name (server conn)) (connections hub)) = set (map fst newServers)"
    and entry: "(fs, cfg') \<in> set newServers"
    and cur: "findConnection hub fs = Some cur"
    and changed: "\<not> deepEqual ops (parse ops (config (server cur))) cfg'"
    and equal: "\<forall>conn \<in> set (connections hub). \<forall>cfg. name (server conn) \<noteq> fs \<longrightarrow>
                    (name (server conn), cfg) \<in> set newServers \<longrightarrow>
                    deepEqual ops (parse ops (config (server conn))) cfg"
  shows "effects (updateServerConnections ops env hub newServers)
           = effects hub
             @ (if transport cur then [TransportClose fs] else [])
             @ (if client cur \<and> \<not> (transport cur
                    \<and> transport_close_throws env (effects hub @ [TransportClose fs]))
                then [ClientClose fs] else [])
             @ (if config_disabled ops cfg' = Some True then [] else [ConnectAttempt fs cfg'])
       \<and> connections (updateServerConnections ops env hub newServers)
           = filter (\<lambda>conn. name (server conn) \<noteq> fs) (connections hub)
             @ (if config_disabled ops cfg' = Some True
                then [\<lparr>server = \<lparr>name = fs, config = stringify ops cfg',
                                   status = Disconnected, disabled = Some True, error = None,
                                   tools = None, resources = None, resourceTemplates = None\<rparr>,
                        client = False, transport = False\<rparr>]
                else (case connect_outcome env
                             (effects (updateServerConnections ops env hub newServers)) of
                        SetupThrows msg \<Rightarrow> []
                      | ConnectThrows msg \<Rightarrow>
                          [\<lparr>server = \<lparr>name = fs, config = stringify ops cfg',
                                       status = Disconnected,
                                       disabled = config_disabled ops cfg', error = Some msg,
                                       tools = None, resources = None,
                                       resourceTemplates = None\<rparr>,
                            client = True, transport = True\<rparr>]
                      | ConnectOk ts rs rts \<Rightarrow>
                          [\<lparr>server = \<lparr>name = fs, config = stringify ops cfg',
                                       status = Connected,
                                       disabled = config_disabled ops cfg', error = Some [],
                                       tools = Some ts, resources = Some rs,
                                       resourceTemplates = Some rts\<rparr>,
                            client = True, transport = True\<rparr>]))
       \<and> filter (\<lambda>conn. name (server conn) \<noteq> fs)
            (connections (updateServerConnections ops env hub newServers))
           = filter (\<lambda>conn. name (server conn) \<noteq> fs) (connections hub)
       \<and> \<not> isConnecting (updateServerConnections ops env hub newServers)"
proof -
  let ?hub1 = "hub\<lparr>isConnecting := True\<rparr>"
  let ?del = "deleteConnection env ?hub1 fs"
  let ?hub' = "updateServerConnections ops env hub newServers"
  have cur1: "findConnection ?hub1 fs = Some cur"
    using cur by (simp add: findConnection_def)
  have upd: "?hub' = (snd (connectToServer ops env ?del fs cfg'))\<lparr>isConnecting := False\<rparr>"
    by (rule update_one_changed [OF keys same entry cur changed equal])
  have del_eff: "effects ?del
                   = effects hub
                     @ (if transport cur then [TransportClose fs] else [])
                     @ (if client cur \<and> \<not> (transport cur
                            \<and> transport_close_throws env (effects hub @ [TransportClose fs]))
                        then [ClientClose fs] else [])"
    using deleteConnection_found(1) [OF cur1, of env] by simp
  have del_conn: "connections ?del = others fs (connections hub)"
    using deleteConnection_found(2) [OF cur1, of env] by simp
  have eff: "effects ?hub'
               = effects ?del
                 @ (if config_disabled ops cfg' = Some True then [] else [ConnectAttempt fs cfg'])"
    unfolding upd by (simp add: connectToServer_effects)
  have conn: "connections ?hub'
                = connections (snd (connectToServer ops env ?del fs cfg'))"
    unfolding upd by simp
  have c1: "effects ?hub'
              = effects hub
                @ (if transport cur then [TransportClose fs] else [])
                @ (if client cur \<and> \<not> (transport cur
                       \<and> transport_close_throws env (effects hub @ [TransportClose fs]))
                   then [ClientClose fs] else [])
                @ (if config_disabled ops cfg' = Some True then [] else [ConnectAttempt fs cfg'])"
    unfolding eff del_eff by simp
  have attempt: "effects ?del @ [ConnectAttempt fs cfg'] = effects ?hub'"
    if "config_disabled ops cfg' \<noteq> Some True"
    unfolding eff using that by simp
  have c2: "connections ?hub'
           = others fs (connections hub)
             @ (if config_disabled ops cfg' = Some True
                then [\<lparr>server = \<lparr>name = fs, config = stringify ops cfg',
                                   status = Disconnected, disabled = Some True, error = None,
                                   tools = None, resources = None, resourceTemplates = None\<rparr>,
                        client = False, transport = False\<rparr>]
                else (case connect_outcome env (effects ?hub') of
                        SetupThrows msg \<Rightarrow> []
                      | ConnectThrows msg \<Rightarrow>
                          [\<lparr>server = \<lparr>name = fs, config = stringify ops cfg',
                                       status = Disconnected,
                                       disabled = config_disabled ops cfg', error = Some msg,
                                       tools = None, resources = None,
                                       resourceTemplates = None\<rparr>,
                            client = True, transport = True\<rparr>]
                      | ConnectOk ts rs rts \<Rightarrow>
                          [\<lparr>server = \<lparr>name = fs, config = stringify ops cfg',
                                       status = Connected,
                                       disabled = config_disabled ops cfg', error = Some [],
                                       tools = Some ts, resources = Some rs,
                                       resourceTemplates = Some rts\<rparr>,
                            client = True, transport = True\<rparr>]))"
  proof (cases "config_disabled ops cfg' = Some True")
    case True
    then show ?thesis
      unfolding conn connectToServer_connections del_conn by simp
  next
    case False
    show ?thesis
      unfolding conn connectToServer_connections del_conn attempt [OF False]
      using False by simp
  qed
  have c3: "others fs (connections ?hub') = others fs (connections hub)"
    unfolding c2 by (simp split: connect_outcome.splits)
  have c4: "\<not> isConnecting ?hub'"
    unfolding upd by simp
  from c1 c2 c3 c4 show ?thesis by (intro conjI)
qed

theorem changed_config_closes_then_connects_once_witness:
  "effects (updateServerConnections flag_ops reachable_env two_servers_hub
              [(js ''fs'', (3, False)), (js ''git'', (2, False))])
     = [TransportClose (js ''fs''), ClientClose (js ''fs''),
        ConnectAttempt (js ''fs'') (3, False)]
   \<and> connections (updateServerConnections flag_ops reachable_env two_servers_hub
                     [(js ''fs'', (3, False)), (js ''git'', (2, False))])
     = [live_connection (js ''git'') (2, False), live_connection (js ''fs'') (3, False)]
   \<and> \<not> isConnecting (updateServerConnections flag_ops reachable_env two_servers_hub
                       [(js ''fs'', (3, False)), (js ''git'', (2, False))])"
proof -
  let ?new = "[(js ''fs'', (3::nat, False)), (js ''git'', (2, False))]"
  have h1: "distinct (map fst ?new)" by simp
  have h2: "set (map (\<lambda>conn. name (server conn)) (connections two_servers_hub))
              = set (map fst ?new)"
    by (simp add: two_servers_hub_def live_connection_def)
  have h3: "(js ''fs'', (3, False)) \<in> set ?new" by simp
  have h4: "findConnection two_servers_hub (js ''fs'')
              = Some (live_connection (js ''fs'') (1, False))"
    by (simp add: findConnection_def two_servers_hub_def live_connection_def)
  have h5: "\<not> deepEqual flag_ops
                (parse flag_ops (config (server (live_connection (js ''fs'') (1, False)))))
                (3, False)"
    by (simp add: flag_ops_def live_connection_def)
  have h6: "\<forall>conn \<in> set (connections two_servers_hub). \<forall>cfg.
              name (server conn) \<noteq> js ''fs'' \<longrightarrow>
              (name (server conn), cfg) \<in> set ?new \<longrightarrow>
              deepEqual flag_ops (parse flag_ops (config (server conn))) cfg"
    by (simp add: flag_ops_def two_servers_hub_def live_connection_def)
  from changed_config_closes_then_connects_once [OF h1 h2 h3 h4 h5 h6, of reachable_env]
  show ?thesis
    by (simp add: flag_ops_def reachable_env_def two_servers_hub_def live_connection_def)
qed

section \<open>Assistant message parser (Task.parseAssistantMessage)\<close>

text \<open>
  White space as \<^verbatim>\<open>\s\<close> and \<^verbatim>\<open>String.prototype.trim\<close> understand it: the code units of
  ECMAScript's WhiteSpace and LineTerminator productions.
\<close>

definition is_space :: "code_unit \<Rightarrow> bool" where
  "is_space c \<longleftrightarrow>
     c \<in> {0x09, 0x0A, 0x0B, 0x0C, 0x0D, 0x20, 0xA0, 0x1680, 0x2028, 0x2029, 0x202F,
           0x205F, 0x3000, 0xFEFF}
     \<or> (0x2000 \<le> c \<and> c \<le> 0x200A)"

definition trim :: "jstring \<Rightarrow> jstring" where
  "trim s = rev (dropWhile is_space (rev (dropWhile is_space s)))"

text \<open>
  The regular expression of the parser,
  \<^verbatim>\<open>/<tool_use>\s*<name>(.*?)<\/name>\s*<input>(.*?)<\/input>\s*<\/tool_use>/gs\<close>,
  is a sequence of three kinds of items: a literal, the greedy \<^verbatim>\<open>\s*\<close>, and the lazy
  capture group \<^verbatim>\<open>(.*?)\<close>, whose dot matches every code unit under the \<^verbatim>\<open>s\<close> flag.
  \<open>rmatch\<close> is the backtracking matcher anchored at the start of its input: the greedy
  item first tries to take one more space and falls back to taking none, the lazy group
  first tries to stop and only then takes one more code unit. It returns the captured
  groups and the input left after the match.
\<close>

datatype item = Lit jstring | Ws | Cap

fun rmatch :: "item list \<Rightarrow> jstring \<Rightarrow> (jstring list \<times> jstring) option" where
  "rmatch [] s = Some ([], s)"
| "rmatch (Lit l # its) s =
     (if prefix l s then rmatch its (drop (length l) s) else None)"
| "rmatch (Ws # its) [] = rmatch its []"
| "rmatch (Ws # its) (c # cs) =
     (if is_space c
      then (case rmatch (Ws # its) cs of Some r \<Rightarrow> Some r | None \<Rightarrow> rmatch its (c # cs))
      else rmatch its (c # cs))"
| "rmatch (Cap # its) [] =
     (case rmatch its [] of Some (caps, rest) \<Rightarrow> Some ([] # caps, rest) | None \<Rightarrow> None)"
| "rmatch (Cap # its) (c # cs) =
     (case rmatch its (c # cs) of
        Some (caps, rest) \<Rightarrow> Some ([] # caps, rest)
      | None \<Rightarrow>
         (case rmatch (Cap # its) cs of
            Some (cap # caps, rest) \<Rightarrow> Some ((c # cap) # caps, rest)
          | _ \<Rightarrow> None))"

definition toolUseRegex :: "item list" where
  "toolUseRegex =
     [Lit (js ''<tool_use>''), Ws, Lit (js ''<name>''), Cap, Lit (js ''</name>''), Ws,
      Lit (js ''<input>''), Cap, Lit (js ''</input>''), Ws, Lit (js ''</tool_use>'')]"

text \<open>
  \<^verbatim>\<open>toolUseRegex.exec(message)\<close> from \<^verbatim>\<open>lastIndex\<close> on: the leftmost position of the
  unread part \<open>s\<close> at which the expression matches. The result gives the text skipped
  before the match (\<^verbatim>\<open>message.slice(lastIndex, match.index)\<close>), the groups, the matched
  text \<^verbatim>\<open>match[0]\<close> and the text after the match, where the next search starts.
\<close>

record regex_match =
  before :: jstring
  groups :: "jstring list"
  matched :: jstring
  after :: jstring

definition match_here :: "item list \<Rightarrow> jstring \<Rightarrow> regex_match option" where
  "match_here re s =
     (case rmatch re s of
        Some (caps, rest) \<Rightarrow>
          Some \<lparr>before = [], groups = caps, matched = take (length s - length rest) s,
                after = rest\<rparr>
      | None \<Rightarrow> None)"

fun regex_exec :: "item list \<Rightarrow> jstring \<Rightarrow> regex_match option" where
  "regex_exec re [] = match_here re []"
| "regex_exec re (c # cs) =
     (case match_here re (c # cs) of
        Some m \<Rightarrow> Some m
      | None \<Rightarrow> map_option (\<lambda>m. m\<lparr>before := c # before m\<rparr>) (regex_exec re cs))"

text \<open>
  The value that \<^verbatim>\<open>JSON.parse\<close> returns, and its truthiness (\<^verbatim>\<open>ToBoolean\<close>).
  \<^verbatim>\<open>JSON.parse\<close> itself is a parameter of the parser: \<open>None\<close> stands for a thrown
  \<^verbatim>\<open>SyntaxError\<close>.
\<close>

datatype json =
    JNull
  | JBool bool
  | JNumber real
  | JString jstring
  | JArray "json list"
  | JObject "(jstring \<times> json) list"

fun truthy :: "json \<Rightarrow> bool" where
  "truthy JNull = False"
| "truthy (JBool b) = b"
| "truthy (JNumber x) = (x \<noteq> 0)"
| "truthy (JString s) = (s \<noteq> [])"
| "truthy (JArray xs) = True"
| "truthy (JObject kvs) = True"

text \<open>\<^verbatim>\<open>AssistantMessageContent\<close>: a text block or a tool-invocation block.\<close>

datatype block =
    TextBlock (text_of: jstring) (partial: bool)
  | ToolUseBlock (tool_name: jstring) (input: json) (partial: bool)

text \<open>
  The two pushes of the loop body: the trimmed text before the match, if the match does
  not start at \<^verbatim>\<open>lastIndex\<close> and the trimmed text is not empty; then the tool block, or
  the matched text as a text block when the payload does not decode.
\<close>

definition textBefore :: "regex_match \<Rightarrow> block list" where
  "textBefore m =
     (if before m \<noteq> [] \<and> trim (before m) \<noteq> [] then [TextBlock (trim (before m)) False]
      else [])"

definition toolBlock :: "(jstring \<Rightarrow> json option) \<Rightarrow> regex_match \<Rightarrow> block" where
  "toolBlock JSON_parse m =
     (case JSON_parse (groups m ! 1) of
        Some inp \<Rightarrow> ToolUseBlock (groups m ! 0) inp False
      | None \<Rightarrow> TextBlock (matched m) False)"

subsection \<open>A match consumes input\<close>

lemma rmatch_length: "rmatch its s = Some (caps, rest) \<Longrightarrow> length rest \<le> length s"
proof (induction its s arbitrary: caps rest rule: rmatch.induct)
  case (2 l its s)
  then show ?case by (auto split: if_splits)
next
  case (4 its c cs)
  then show ?case by (fastforce split: if_splits option.splits)
next
  case (6 its c cs)
  then show ?case by (fastforce split: option.splits list.splits)
qed (auto split: option.splits)

lemma regex_exec_shorter:
  "regex_exec toolUseRegex s = Some m \<Longrightarrow> length (after m) < length s"
proof (induction s arbitrary: m)
  case Nil
  then show ?case by (simp add: match_here_def toolUseRegex_def)
next
  case (Cons c cs)
  show ?case
  proof (cases "match_here toolUseRegex (c # cs)")
    case None
    with Cons.prems obtain m' where "regex_exec toolUseRegex cs = Some m'"
      "m = m'\<lparr>before := c # before m'\<rparr>"
      by auto
    with Cons.IH [of m'] show ?thesis by simp
  next
    case (Some m')
    with Cons.prems have mm: "m' = m" by simp
    from Some obtain caps rest where
      r: "rmatch toolUseRegex (c # cs) = Some (caps, rest)" and a: "after m' = rest"
      by (auto simp: match_here_def split: option.splits)
    from r obtain caps' where p: "prefix (js ''<tool_use>'') (c # cs)"
      and "rmatch (tl toolUseRegex) (drop (length (js ''<tool_use>'')) (c # cs)) = Some (caps', rest)"
      by (auto simp: toolUseRegex_def split: if_splits simp del: Cons_prefix_Cons drop_Suc_Cons)
    then have "length rest \<le> length (drop (length (js ''<tool_use>'')) (c # cs))"
      using rmatch_length by blast
    then show ?thesis using a mm by simp
  qed
qed

text \<open>
  The \<^verbatim>\<open>while\<close> loop of \<^verbatim>\<open>parseAssistantMessage\<close> on the unread part of the message; it
  returns the blocks pushed and the text left after the last match.
\<close>

function parse_loop :: "(jstring \<Rightarrow> json option) \<Rightarrow> jstring \<Rightarrow> block list \<times> jstring" where
  "parse_loop JSON_parse s =
     (case regex_exec toolUseRegex s of
        None \<Rightarrow> ([], s)
      | Some m \<Rightarrow>
          (case parse_loop JSON_parse (after m) of
             (blocks, remaining) \<Rightarrow>
               (textBefore m @ toolBlock JSON_parse m # blocks, remaining)))"
  by pat_completeness auto
termination
  by (relation "measure (\<lambda>(p, s). length s)") (auto dest: regex_exec_shorter)

declare parse_loop.simps [simp del]

definition parseAssistantMessage :: "(jstring \<Rightarrow> json option) \<Rightarrow> jstring \<Rightarrow> block list" where
  "parseAssistantMessage JSON_parse message =
     (case parse_loop JSON_parse message of
        (blocks, remaining) \<Rightarrow>
          (let content1 =
                 (if remaining \<noteq> [] \<and> trim remaining \<noteq> []
                  then blocks @ [TextBlock (trim remaining) True] else blocks)
           in if content1 = [] \<and> trim message \<noteq> [] then [TextBlock message True]
              else content1))"

subsection \<open>Literals that start with a mark occurring nowhere else in them\<close>

lemma prefix_no_overlap:
  assumes "x \<notin> set l" and "u \<noteq> []"
  shows "prefix (x # l) (u @ x # rest) \<longleftrightarrow> prefix (x # l) u"
proof
  assume "prefix (x # l) (u @ x # rest)"
  then consider "prefix (x # l) u" | us where "x # l = u @ us" "prefix us (x # rest)"
    by (auto simp: prefix_append)
  then show "prefix (x # l) u"
  proof cases
    case 1
    then show ?thesis .
  next
    case 2
    show ?thesis
    proof (cases us)
      case Nil
      with 2 show ?thesis by simp
    next
      case (Cons y ys)
      with 2 have "y = x" by simp
      with 2(1) Cons assms(2) have "x \<in> set l"
        by (cases u) auto
      with assms(1) show ?thesis by simp
    qed
  qed
next
  assume "prefix (x # l) u"
  then show "prefix (x # l) (u @ x # rest)"
    by (rule prefix_prefix)
qed

lemma str_includes_suffix:
  "prefix l v \<Longrightarrow> v \<noteq> [] \<Longrightarrow> str_includes (u @ v) l"
  by (induction u) (auto simp: neq_Nil_conv)

lemma rmatch_Ws_Lit:
  assumes "l \<noteq> []" and "\<not> is_space (hd l)"
  shows "rmatch (Ws # Lit l # its) s = rmatch (Lit l # its) (dropWhile is_space s)"
proof (induction s)
  case Nil
  then show ?case by simp
next
  case (Cons c cs)
  show ?case
  proof (cases "is_space c")
    case True
    then have "\<not> prefix l (c # cs)"
      using assms by (cases l) auto
    then have "rmatch (Lit l # its) (c # cs) = None" by simp
    then have "rmatch (Ws # Lit l # its) (c # cs) = rmatch (Ws # Lit l # its) cs"
      using True by (simp split: option.splits)
    with Cons True show ?thesis by simp
  next
    case False
    then show ?thesis by simp
  qed
qed

lemma rmatch_Cap_first:
  assumes "rmatch its s = Some (caps, rest)"
    and "\<And>u v. cap = u @ v \<Longrightarrow> v \<noteq> [] \<Longrightarrow> rmatch its (v @ s) = None"
  shows "rmatch (Cap # its) (cap @ s) = Some (cap # caps, rest)"
  using assms(2)
proof (induction cap)
  case Nil
  show ?case using assms(1) by (cases s) simp_all
next
  case (Cons c cap)
  have "rmatch its ((c # cap) @ s) = None"
    using Cons.prems [of "[]" "c # cap"] by simp
  moreover have "rmatch (Cap # its) (cap @ s) = Some (cap # caps, rest)"
  proof (rule Cons.IH)
    fix u v assume "cap = u @ v" "v \<noteq> []"
    then show "rmatch its (v @ s) = None"
      using Cons.prems [of "c # u" v] by simp
  qed
  ultimately show ?case by simp
qed


text \<open>
  Every literal of the expression starts with \<^verbatim>\<open><\<close> and has no other \<^verbatim>\<open><\<close>, so an
  occurrence of a literal cannot straddle the start of another one.
\<close>

definition lt :: code_unit where
  "lt = of_char CHR ''<''"

definition tag_lit :: "jstring \<Rightarrow> bool" where
  "tag_lit l \<longleftrightarrow> (\<exists>l'. l = lt # l' \<and> lt \<notin> set l')"

lemma lt_not_space: "\<not> is_space lt"
  by (simp add: lt_def is_space_def)

lemma tag_lits:
  "tag_lit (js ''<tool_use>'')" "tag_lit (js ''<name>'')" "tag_lit (js ''</name>'')"
  "tag_lit (js ''<input>'')" "tag_lit (js ''</input>'')" "tag_lit (js ''</tool_use>'')"
  by (simp_all add: tag_lit_def lt_def)

lemma rmatch_Lit_append: "rmatch (Lit l # its) (l @ s) = rmatch its s"
  by simp

lemma dropWhile_spaces_tag:
  assumes "tag_lit l" and "\<forall>c \<in> set ws. is_space c"
  shows "dropWhile is_space (ws @ l @ s) = l @ s"
proof -
  from assms(1) obtain l' where l: "l = lt # l'" by (auto simp: tag_lit_def)
  have "dropWhile is_space (ws @ l @ s) = dropWhile is_space (l @ s)"
    using assms(2) by (simp add: dropWhile_append2)
  also have "\<dots> = l @ s"
    by (simp add: l lt_not_space)
  finally show ?thesis .
qed

lemma rmatch_Ws_Lit_skip:
  assumes "tag_lit l" and "\<forall>c \<in> set ws. is_space c"
  shows "rmatch (Ws # Lit l # its) (ws @ l @ s) = rmatch its s"
proof -
  from assms(1) obtain l' where l: "l = lt # l'" by (auto simp: tag_lit_def)
  have "rmatch (Ws # Lit l # its) (ws @ l @ s)
          = rmatch (Lit l # its) (dropWhile is_space (ws @ l @ s))"
    by (rule rmatch_Ws_Lit) (simp_all add: l lt_not_space)
  then show ?thesis
    by (simp only: dropWhile_spaces_tag [OF assms] rmatch_Lit_append)
qed

lemma prefix_tag_no_overlap:
  assumes "tag_lit l" and "tag_lit l2" and "v \<noteq> []"
  shows "prefix l (v @ l2 @ s) \<longleftrightarrow> prefix l v"
proof -
  from assms obtain l' k' where "l = lt # l'" "lt \<notin> set l'" "l2 = lt # k'"
    by (auto simp: tag_lit_def)
  then show ?thesis
    using prefix_no_overlap [of lt l' v "k' @ s"] assms(3) by simp
qed

lemma rmatch_Lit_fail:
  assumes "tag_lit l" and "tag_lit l2" and "v \<noteq> []" and "\<not> str_includes (u @ v) l"
  shows "rmatch (Lit l # its) (v @ l2 @ s) = None"
proof -
  have "\<not> prefix l v"
    using assms(3,4) str_includes_suffix by blast
  then have "\<not> prefix l (v @ l2 @ s)"
    by (simp add: prefix_tag_no_overlap [OF assms(1,2,3)])
  then show ?thesis by simp
qed

lemma rmatch_Cap_skip:
  assumes "tag_lit l" and "\<not> str_includes cap l"
    and "rmatch its s = Some (caps, rest)"
  shows "rmatch (Cap # Lit l # its) (cap @ l @ s) = Some (cap # caps, rest)"
proof (rule rmatch_Cap_first)
  show "rmatch (Lit l # its) (l @ s) = Some (caps, rest)"
    using assms(3) by simp
next
  fix u v assume "cap = u @ v" "v \<noteq> []"
  then show "rmatch (Lit l # its) (v @ l @ s) = None"
    using assms(1,2) by (intro rmatch_Lit_fail [where u = u]) simp_all
qed

lemma rmatch_tag:
  assumes lits: "tag_lit a" "tag_lit b" "tag_lit c" "tag_lit d" "tag_lit e" "tag_lit f"
    and ws: "\<forall>x \<in> set ws1. is_space x" "\<forall>x \<in> set ws2. is_space x" "\<forall>x \<in> set ws3. is_space x"
    and nm: "\<not> str_includes nm c"
    and pl: "\<not> str_includes payload e"
  shows "rmatch [Lit a, Ws, Lit b, Cap, Lit c, Ws, Lit d, Cap, Lit e, Ws, Lit f]
           (a @ ws1 @ b @ nm @ c @ ws2 @ d @ payload @ e @ ws3 @ f @ rest)
         = Some ([nm, payload], rest)"
proof -
  have p3: "rmatch [Ws, Lit f] (ws3 @ f @ rest) = Some ([], rest)"
    by (simp only: rmatch_Ws_Lit_skip [OF lits(6) ws(3)] rmatch.simps)
  have p2: "rmatch [Cap, Lit e, Ws, Lit f] (payload @ e @ ws3 @ f @ rest) = Some ([payload], rest)"
    by (rule rmatch_Cap_skip [OF lits(5) pl p3])
  have p1: "rmatch [Ws, Lit d, Cap, Lit e, Ws, Lit f] (ws2 @ d @ payload @ e @ ws3 @ f @ rest)
              = Some ([payload], rest)"
    by (simp only: rmatch_Ws_Lit_skip [OF lits(4) ws(2)] p2)
  have p0: "rmatch [Cap, Lit c, Ws, Lit d, Cap, Lit e, Ws, Lit f]
              (nm @ c @ ws2 @ d @ payload @ e @ ws3 @ f @ rest) = Some ([nm, payload], rest)"
    by (rule rmatch_Cap_skip [OF lits(3) nm p1])
  show ?thesis
    by (simp only: rmatch_Lit_append rmatch_Ws_Lit_skip [OF lits(2) ws(1)] p0)
qed

subsection \<open>Searching for the tag\<close>

lemma regex_exec_none:
  assumes "l \<noteq> []" and "\<not> str_includes s l"
  shows "regex_exec (Lit l # its) s = None"
  using assms(2)
proof (induction s)
  case Nil
  then show ?case using assms(1) by (simp add: match_here_def)
next
  case (Cons c cs)
  then show ?case by (simp add: match_here_def)
qed

lemma regex_exec_skip:
  assumes "tag_lit l" and "tag_lit l2" and "\<not> str_includes pre l"
  shows "regex_exec (Lit l # its) (pre @ l2 @ s)
           = map_option (\<lambda>m. m\<lparr>before := pre @ before m\<rparr>) (regex_exec (Lit l # its) (l2 @ s))"
  using assms(3)
proof (induction pre)
  case Nil
  show ?case by (simp add: option.map_ident)
next
  case (Cons c pre)
  have np: "\<not> prefix l (c # pre)" and ni: "\<not> str_includes pre l"
    using Cons.prems by simp_all
  have "\<not> prefix l ((c # pre) @ l2 @ s)"
    using np by (simp only: prefix_tag_no_overlap [OF assms(1,2)] list.simps not_False_eq_True)
  then have "match_here (Lit l # its) (c # pre @ l2 @ s) = None"
    by (simp add: match_here_def)
  then show ?case
    using Cons.IH [OF ni] by (simp add: option.map_comp comp_def)
qed


lemma match_here_append:
  "rmatch re (t @ post) = Some (caps, post) \<Longrightarrow>
     match_here re (t @ post) = Some \<lparr>before = [], groups = caps, matched = t, after = post\<rparr>"
  by (simp add: match_here_def)

lemma regex_exec_here: "match_here re s = Some m \<Longrightarrow> regex_exec re s = Some m"
  by (cases s) simp_all

lemma parse_loop_no_match:
  "\<not> str_includes s (js ''<tool_use>'') \<Longrightarrow> parse_loop JSON_parse s = ([], s)"
proof -
  assume "\<not> str_includes s (js ''<tool_use>'')"
  then have "regex_exec toolUseRegex s = None"
    unfolding toolUseRegex_def by (intro regex_exec_none) simp_all
  then show ?thesis by (simp add: parse_loop.simps)
qed

lemma regex_exec_one_tag:
  assumes ws: "\<forall>x \<in> set ws1 \<union> set ws2 \<union> set ws3. is_space x"
    and pre: "\<not> str_includes pre (js ''<tool_use>'')"
    and nm: "\<not> str_includes nm (js ''</name>'')"
    and pl: "\<not> str_includes payload (js ''</input>'')"
  shows "regex_exec toolUseRegex
           (pre @ js ''<tool_use>'' @ ws1 @ js ''<name>'' @ nm @ js ''</name>'' @ ws2 @
            js ''<input>'' @ payload @ js ''</input>'' @ ws3 @ js ''</tool_use>'' @ post)
         = Some \<lparr>before = pre, groups = [nm, payload],
                  matched = js ''<tool_use>'' @ ws1 @ js ''<name>'' @ nm @ js ''</name>'' @ ws2 @
                    js ''<input>'' @ payload @ js ''</input>'' @ ws3 @ js ''</tool_use>'',
                  after = post\<rparr>"
proof -
  let ?T = "js ''<tool_use>''"
  let ?its = "[Ws, Lit (js ''<name>''), Cap, Lit (js ''</name>''), Ws,
      Lit (js ''<input>''), Cap, Lit (js ''</input>''), Ws, Lit (js ''</tool_use>'')]"
  let ?body = "ws1 @ js ''<name>'' @ nm @ js ''</name>'' @ ws2 @
            js ''<input>'' @ payload @ js ''</input>'' @ ws3 @ js ''</tool_use>''"
  have re: "toolUseRegex = Lit ?T # ?its" by (simp only: toolUseRegex_def)
  have w: "\<forall>x \<in> set ws1. is_space x" "\<forall>x \<in> set ws2. is_space x" "\<forall>x \<in> set ws3. is_space x"
    using ws by auto
  have "rmatch (Lit ?T # ?its) (?T @ ws1 @ js ''<name>'' @ nm @ js ''</name>'' @ ws2 @
            js ''<input>'' @ payload @ js ''</input>'' @ ws3 @ js ''</tool_use>'' @ post)
          = Some ([nm, payload], post)"
    by (rule rmatch_tag [OF tag_lits w nm pl])
  then have "rmatch (Lit ?T # ?its) ((?T @ ?body) @ post) = Some ([nm, payload], post)"
    by (simp only: append_assoc)
  then have "match_here (Lit ?T # ?its) ((?T @ ?body) @ post)
          = Some \<lparr>before = [], groups = [nm, payload], matched = ?T @ ?body, after = post\<rparr>"
    by (rule match_here_append)
  then have here: "regex_exec (Lit ?T # ?its) (?T @ ?body @ post)
          = Some \<lparr>before = [], groups = [nm, payload], matched = ?T @ ?body, after = post\<rparr>"
    by (simp only: append_assoc regex_exec_here)
  have skip: "regex_exec (Lit ?T # ?its) (pre @ ?T @ ?body @ post)
          = map_option (\<lambda>m. m\<lparr>before := pre @ before m\<rparr>)
              (regex_exec (Lit ?T # ?its) (?T @ ?body @ post))"
    by (rule regex_exec_skip [OF tag_lits(1) tag_lits(1) pre])
  have "regex_exec (Lit ?T # ?its) (pre @ ?T @ ?body @ post)
          = Some \<lparr>before = pre, groups = [nm, payload], matched = ?T @ ?body, after = post\<rparr>"
    unfolding skip here by simp
  then show ?thesis
    by (simp only: re append_assoc)
qed


lemma rmatch_groups:
  "rmatch its s = Some (caps, rest) \<Longrightarrow> length caps = length (filter (\<lambda>i. i = Cap) its)"
proof (induction its s arbitrary: caps rest rule: rmatch.induct)
  case (4 its c cs)
  then show ?case by (auto split: if_splits option.splits)
next
  case (6 its c cs)
  then show ?case by (fastforce split: option.splits list.splits)
qed (auto split: option.splits if_splits)

lemma regex_exec_groups:
  "regex_exec toolUseRegex s = Some m \<Longrightarrow> length (groups m) = 2"
proof (induction s arbitrary: m)
  case Nil
  then show ?case by (simp add: match_here_def toolUseRegex_def)
next
  case (Cons c cs)
  show ?case
  proof (cases "match_here toolUseRegex (c # cs)")
    case None
    with Cons show ?thesis by auto
  next
    case (Some m')
    then obtain caps rest where "rmatch toolUseRegex (c # cs) = Some (caps, rest)" "groups m' = caps"
      by (auto simp: match_here_def split: option.splits)
    then have "length (groups m') = 2"
      using rmatch_groups [of toolUseRegex "c # cs" caps rest] by (simp add: toolUseRegex_def)
    with Some Cons.prems show ?thesis by simp
  qed
qed


section \<open>Parsing one tag between prose\<close>

text \<open>
  C7 as stated: non-empty text, one well-formed tag, non-empty text always gives three
  blocks. The parser trims the text on both sides and pushes no block for text that is
  empty after trimming: a line break before and after the tag leaves the tool block
  alone.
\<close>

definition decode_empty_object :: "jstring \<Rightarrow> json option" where
  "decode_empty_object s = (if s = js ''{}'' then Some (JObject []) else None)"

theorem whitespace_prose_counterexample:
  "js ''\<newline>'' \<noteq> []
   \<and> parseAssistantMessage decode_empty_object
        (js ''\<newline>'' @ js ''<tool_use><name>read_file</name><input>{}</input></tool_use>''
           @ js ''\<newline>'')
       = [ToolUseBlock (js ''read_file'') (JObject []) False]"
  by (simp add: decode_empty_object_def parseAssistantMessage_def parse_loop.simps
      toolUseRegex_def is_space_def match_here_def trim_def textBefore_def toolBlock_def)

text \<open>
  C7 as amended. The buffer is \<open>pre\<close>, one tag, \<open>post\<close>: the tag is written with any white
  space \<open>ws1\<close>, \<open>ws2\<close>, \<open>ws3\<close> between its parts, a name not containing \<^verbatim>\<open></name>\<close>, and a
  payload not containing \<^verbatim>\<open></input>\<close> that \<^verbatim>\<open>JSON.parse\<close> decodes to \<open>v\<close>; neither
  \<open>pre\<close> nor \<open>post\<close> contains \<^verbatim>\<open><tool_use>\<close>. The parse is then: a non-partial text
  block with \<open>pre\<close> trimmed, present only if the trimmed text is not empty; the
  non-partial tool-invocation block; a partial text block with \<open>post\<close> trimmed, present
  only if the trimmed text is not empty. In particular there are exactly three blocks
  when neither \<open>pre\<close> nor \<open>post\<close> is white space only.
\<close>

theorem one_tag_blocks:
  assumes ws: "\<forall>x \<in> set ws1 \<union> set ws2 \<union> set ws3. is_space x"
    and pre: "\<not> str_includes pre (js ''<tool_use>'')"
    and post: "\<not> str_includes post (js ''<tool_use>'')"
    and nm: "\<not> str_includes nm (js ''</name>'')"
    and pl: "\<not> str_includes payload (js ''</input>'')"
    and dec: "JSON_parse payload = Some v"
  shows "parseAssistantMessage JSON_parse
           (pre @ js ''<tool_use>'' @ ws1 @ js ''<name>'' @ nm @ js ''</name>'' @ ws2 @
            js ''<input>'' @ payload @ js ''</input>'' @ ws3 @ js ''</tool_use>'' @ post)
         = (if trim pre \<noteq> [] then [TextBlock (trim pre) False] else [])
           @ [ToolUseBlock nm v False]
           @ (if trim post \<noteq> [] then [TextBlock (trim post) True] else [])"
proof -
  let ?buf = "pre @ js ''<tool_use>'' @ ws1 @ js ''<name>'' @ nm @ js ''</name>'' @ ws2 @
            js ''<input>'' @ payload @ js ''</input>'' @ ws3 @ js ''</tool_use>'' @ post"
  have trim_Nil: "trim [] = []" by (simp add: trim_def)
  have "parse_loop JSON_parse ?buf
          = ((if trim pre \<noteq> [] then [TextBlock (trim pre) False] else [])
             @ [ToolUseBlock nm v False], post)"
    by (subst parse_loop.simps)
       (auto simp only: regex_exec_one_tag [OF ws pre nm pl] parse_loop_no_match [OF post]
          option.case prod.case textBefore_def toolBlock_def regex_match.simps dec trim_Nil
          nth_Cons_0 nth_Cons_Suc One_nat_def append_Cons append_Nil split: if_splits)
  then show ?thesis
    by (simp only: parseAssistantMessage_def prod.case Let_def)
       (auto simp: trim_Nil)
qed

theorem one_tag_blocks_witness:
  "parseAssistantMessage decode_empty_object
     (js ''Reading. <tool_use> <name>read_file</name><input>{}</input>\<newline></tool_use> Done'')
   = [TextBlock (js ''Reading.'') False,
      ToolUseBlock (js ''read_file'') (JObject []) False,
      TextBlock (js ''Done'') True]"
proof -
  have ws: "\<forall>x \<in> set (js '' '') \<union> set [] \<union> set (js ''\<newline>''). is_space x"
    by (simp add: is_space_def)
  have pre: "\<not> str_includes (js ''Reading. '') (js ''<tool_use>'')" by simp
  have post: "\<not> str_includes (js '' Done'') (js ''<tool_use>'')" by simp
  have nm: "\<not> str_includes (js ''read_file'') (js ''</name>'')" by simp
  have pl: "\<not> str_includes (js ''{}'') (js ''</input>'')" by simp
  have dec: "decode_empty_object (js ''{}'') = Some (JObject [])"
    by (simp add: decode_empty_object_def)
  have t: "trim (js ''Reading. '') = js ''Reading.''" "trim (js '' Done'') = js ''Done''"
    by (simp_all add: trim_def is_space_def)
  from one_tag_blocks [where JSON_parse = decode_empty_object and v = "JObject []",
      OF ws pre post nm pl dec] t
  show ?thesis by simp
qed

section \<open>Task (src/task/Task.ts)\<close>

text \<open>
  The content of a history message is a list of text and image blocks. A tool returns a
  \<^verbatim>\<open>ToolResult\<close>; the hub returns a response whose content elements may carry a text.
  A stream delivers chunks and may end by throwing an error, of which the loop reads the
  name and the message.
\<close>

datatype content_block = TextContent jstring | ImageContent jstring

type_synonym api_message = "content_block list message"

datatype tool_result = ToolResult (success: bool) (result_content: jstring)

record McpToolCallResponse =
  response_texts :: "jstring option list"
  isError :: "bool option"

datatype usage = Usage "nat option" "nat option" "real option"

datatype chunk = TextChunk "jstring option" | UsageChunk usage | ReasoningChunk

datatype api_error = ApiError (error_name: jstring) (error_message: jstring)

text \<open>
  Events emitted to the observers (\<^verbatim>\<open>emitEvent\<close>; a failing observer is caught and
  logged), and the entries of \<^verbatim>\<open>clineMessages\<close>. Timestamps are left out.
\<close>

datatype event =
    ToolExecutionStarted jstring json
  | ToolExecuted jstring json tool_result
  | ErrorEvent jstring
  | AssistantText jstring bool
  | TokenUsage usage
  | TaskCompleted

datatype cline_message = Say jstring jstring

text \<open>
  What surrounds the Task: whether a hub was passed to the constructor, \<^verbatim>\<open>JSON.parse\<close>,
  the hub's \<^verbatim>\<open>callTool\<close> (\<open>Inl\<close> is the message of a thrown error) and the registry's
  \<^verbatim>\<open>executeTool\<close> (which catches every error itself), both answering from the log of
  tool calls made so far, the current one last; the provider's \<^verbatim>\<open>createMessage\<close>, which
  for the n-th request and the messages sent yields the chunks delivered and the error
  thrown after them, if any; the model's \<^verbatim>\<open>maxTokens\<close>; the clock read at the n-th
  request; and the error with which \<^verbatim>\<open>pWaitFor\<close> times out.
\<close>

record task_env =
  mcpHub :: bool
  json_parse :: "jstring \<Rightarrow> json option"
  hub_callTool :: "json tool_call list \<Rightarrow> jstring + McpToolCallResponse"
  registry_executeTool :: "json tool_call list \<Rightarrow> tool_result"
  createMessage :: "nat \<Rightarrow> api_message list \<Rightarrow> chunk list \<times> api_error option"
  maxTokens :: nat
  now :: "nat \<Rightarrow> nat"
  waitTimeoutError :: api_error

text \<open>
  The mutable fields of the Task and of its \<^verbatim>\<open>state\<close>, with the log of tool calls added.
  \<open>truncationNotice\<close> is the one entry that \<^verbatim>\<open>addTruncationNotice\<close> can put into the
  context manager's edit log (message 1, block 0), with its timestamp.
\<close>

record task =
  apiConversationHistory :: "api_message list"
  clineMessages :: "cline_message list"
  events :: "event list"
  toolCalls :: "json tool_call list"
  assistantMessageContent :: "block list"
  currentStreamingContentIndex :: nat
  isStreaming :: bool
  userMessageContentReady :: bool
  abort :: bool
  apiRequestCount :: nat
  didEditFile :: bool
  conversationHistoryDeletedRange :: "(int \<times> int) option"
  truncationNotice :: "nat option"

definition emitEvent :: "event \<Rightarrow> task \<Rightarrow> task" where
  "emitEvent e st = st\<lparr>events := events st @ [e]\<rparr>"

text \<open>\<^verbatim>\<open>Array.prototype.join\<close>.\<close>

fun join :: "jstring \<Rightarrow> jstring list \<Rightarrow> jstring" where
  "join sep [] = []"
| "join sep [x] = x"
| "join sep (x # y # ys) = x @ sep @ join sep (y # ys)"

definition mcpToolResult :: "McpToolCallResponse \<Rightarrow> tool_result" where
  "mcpToolResult mcpResult =
     ToolResult (isError mcpResult \<noteq> Some True)
       (join (js ''\<newline>'')
          (map (\<lambda>t. case t of None \<Rightarrow> [] | Some x \<Rightarrow> x) (response_texts mcpResult)))"

definition userText :: "jstring \<Rightarrow> api_message" where
  "userText t = \<lparr>role = User, content = [TextContent t]\<rparr>"

text \<open>
  \<^verbatim>\<open>executeTool\<close>: the call is routed by \<^const>\<open>toolCall\<close>; a result is appended to the
  history as a user message, an error thrown by the hub is caught and appended as a
  user message too.
\<close>

definition executeTool :: "task_env \<Rightarrow> jstring \<Rightarrow> json \<Rightarrow> task \<Rightarrow> task" where
  "executeTool env toolName args st =
     (let st1 = emitEvent (ToolExecutionStarted toolName args) st;
          call = toolCall (mcpHub env) toolName args;
          st2 = st1\<lparr>toolCalls := toolCalls st1 @ [call]\<rparr>;
          outcome =
            (case call of
               HubCallTool serverName mcpToolName a \<Rightarrow>
                 (case hub_callTool env (toolCalls st2) of
                    Inl err \<Rightarrow> Inl err
                  | Inr mcpResult \<Rightarrow> Inr (mcpToolResult mcpResult))
             | RegistryExecuteTool n a \<Rightarrow> Inr (registry_executeTool env (toolCalls st2)))
      in case outcome of
           Inr result \<Rightarrow>
             (let st3 = st2\<lparr>apiConversationHistory := apiConversationHistory st2 @
                            [userText (js ''Tool \"'' @ toolName @ js ''\" result: ''
                                       @ result_content result)]\<rparr>;
                  st4 = st3\<lparr>clineMessages := clineMessages st3 @
                            [Say (js ''tool_result'') (toolName @ js '': '' @ result_content result)]\<rparr>;
                  st5 = emitEvent (ToolExecuted toolName args result) st4
              in if toolName = js ''write_to_file'' \<or> toolName = js ''replace_in_file''
                 then st5\<lparr>didEditFile := True\<rparr> else st5)
         | Inl errorMessage \<Rightarrow>
             (let st3 = emitEvent (ErrorEvent errorMessage) st2
              in st3\<lparr>apiConversationHistory := apiConversationHistory st3 @
                       [userText (js ''Tool \"'' @ toolName @ js ''\" failed: '' @ errorMessage)]\<rparr>))"

text \<open>
  \<^verbatim>\<open>presentAssistantMessage\<close>: the block under the cursor is presented (the
  \<^verbatim>\<open>switch\<close> is \<open>presentBlock\<close>; a tool block is executed only
  \<^verbatim>\<open>if (content.name && content.input)\<close>); the cursor moves on only past a non-partial
  block.
\<close>

definition presentBlock :: "task_env \<Rightarrow> block \<Rightarrow> task \<Rightarrow> task" where
  "presentBlock env b st =
     (case b of
        TextBlock t p \<Rightarrow> emitEvent (AssistantText t p) st
      | ToolUseBlock n inp p \<Rightarrow>
          if n \<noteq> [] \<and> truthy inp then executeTool env n inp st else st)"

lemma executeTool_frame [simp]:
  "assistantMessageContent (executeTool env n a st) = assistantMessageContent st"
  "currentStreamingContentIndex (executeTool env n a st) = currentStreamingContentIndex st"
  by (simp_all add: executeTool_def emitEvent_def Let_def split: tool_call.splits sum.splits)

lemma presentBlock_frame [simp]:
  "assistantMessageContent (presentBlock env b st) = assistantMessageContent st"
  "currentStreamingContentIndex (presentBlock env b st) = currentStreamingContentIndex st"
  by (simp_all add: presentBlock_def emitEvent_def split: block.splits)

function presentAssistantMessage :: "task_env \<Rightarrow> task \<Rightarrow> task" where
  "presentAssistantMessage env st =
     (if currentStreamingContentIndex st \<ge> length (assistantMessageContent st)
      then st\<lparr>userMessageContentReady := True\<rparr>
      else
        (let b = assistantMessageContent st ! currentStreamingContentIndex st;
             st1 = presentBlock env b st
         in if \<not> partial b
            then (let st2 = st1\<lparr>currentStreamingContentIndex := currentStreamingContentIndex st1 + 1\<rparr>
                  in if currentStreamingContentIndex st2 < length (assistantMessageContent st2)
                     then presentAssistantMessage env st2
                     else st2\<lparr>userMessageContentReady := True\<rparr>)
            else st1))"
  by pat_completeness auto
termination
  by (relation "measure (\<lambda>(env, st). length (assistantMessageContent st)
                                       - currentStreamingContentIndex st)") auto

declare presentAssistantMessage.simps [simp del]


text \<open>
  The \<^verbatim>\<open>for await\<close> loop over the stream: every text chunk is appended to the buffer,
  the whole buffer is parsed again and presented from the cursor. The result says
  whether the loop was left because of the abort flag.
\<close>

fun consumeStream :: "task_env \<Rightarrow> chunk list \<Rightarrow> jstring \<Rightarrow> task \<Rightarrow> task \<times> jstring \<times> bool" where
  "consumeStream env [] assistantMessage st = (st, assistantMessage, False)"
| "consumeStream env (c # cs) assistantMessage st =
     (if abort st then (st, assistantMessage, True)
      else
        (case c of
           TextChunk t \<Rightarrow>
             (let assistantMessage' =
                    assistantMessage @ (case t of None \<Rightarrow> [] | Some x \<Rightarrow> x);
                  st1 = st\<lparr>assistantMessageContent :=
                             parseAssistantMessage (json_parse env) assistantMessage'\<rparr>
              in consumeStream env cs assistantMessage' (presentAssistantMessage env st1))
         | UsageChunk u \<Rightarrow> consumeStream env cs assistantMessage (emitEvent (TokenUsage u) st)
         | ReasoningChunk \<Rightarrow> consumeStream env cs assistantMessage st))"

text \<open>The context manager's token estimate and budget, over real numbers.\<close>

fun blockTokens :: "content_block \<Rightarrow> nat" where
  "blockTokens (TextContent t) = nat \<lceil>real (length t) / 4\<rceil>"
| "blockTokens (ImageContent d) = 1000"

definition estimateTokenCount :: "api_message list \<Rightarrow> nat" where
  "estimateTokenCount messages = sum_list (map (\<lambda>m. sum_list (map blockTokens (content m))) messages)"

definition maxAllowedSize :: "task_env \<Rightarrow> int" where
  "maxAllowedSize env = \<lfloor>real (maxTokens env) * 0.8\<rfloor>"

definition addTruncationNotice :: "nat \<Rightarrow> task \<Rightarrow> task" where
  "addTruncationNotice timestamp st =
     (if truncationNotice st = None then st\<lparr>truncationNotice := Some timestamp\<rparr> else st)"

definition isContextWindowExceededError :: "api_error \<Rightarrow> bool" where
  "isContextWindowExceededError e \<longleftrightarrow>
     error_name e = js ''ContextWindowExceededError''
     \<or> (error_message e \<noteq> [] \<and> str_includes (error_message e) (js ''maximum context length''))
     \<or> (error_message e \<noteq> [] \<and> str_includes (error_message e) (js ''context window''))"

text \<open>
  One pass through the body of \<^verbatim>\<open>while (!this.state.abort)\<close>: it ends by falling through
  to the next pass or by \<^verbatim>\<open>continue\<close> (both \<open>Continue\<close>), by \<^verbatim>\<open>break\<close>, or by
  rethrowing an error. \<open>handleError\<close> is the \<^verbatim>\<open>catch\<close> block.
\<close>

datatype step = Continue task | Break task | Throw api_error task

definition compactHistory :: "keep \<Rightarrow> nat \<Rightarrow> task \<Rightarrow> task" where
  "compactHistory k timestamp st =
     addTruncationNotice timestamp
       (st\<lparr>conversationHistoryDeletedRange :=
             Some (getNextTruncationRange (apiConversationHistory st)
                     (conversationHistoryDeletedRange st) k)\<rparr>)"

definition handleError :: "task_env \<Rightarrow> api_error \<Rightarrow> task \<Rightarrow> step" where
  "handleError env e st =
     (if isContextWindowExceededError e
      then Continue (compactHistory Quarter (now env (apiRequestCount st)) st)
      else Throw e (emitEvent (ErrorEvent (error_message e)) st))"

definition truncatedMessages :: "task \<Rightarrow> api_message list" where
  "truncatedMessages st =
     getTruncatedMessages (apiConversationHistory st) (conversationHistoryDeletedRange st)"

definition startRequest :: "task_env \<Rightarrow> task \<Rightarrow> task" where
  "startRequest env st =
     (let shouldTruncate = (maxAllowedSize env \<le> int (estimateTokenCount (truncatedMessages st)));
          st1 = (if shouldTruncate then compactHistory Half (now env (apiRequestCount st)) st else st)
      in st1\<lparr>apiRequestCount := apiRequestCount st1 + 1, isStreaming := True,
              assistantMessageContent := [], currentStreamingContentIndex := 0,
              userMessageContentReady := False\<rparr>)"

definition hasCompletionTool :: "block list \<Rightarrow> bool" where
  "hasCompletionTool bs \<longleftrightarrow>
     (\<exists>b \<in> set bs. case b of ToolUseBlock n inp p \<Rightarrow> n = js ''attempt_completion''
                            | TextBlock t p \<Rightarrow> False)"

definition finishStream :: "task_env \<Rightarrow> jstring \<Rightarrow> task \<Rightarrow> step" where
  "finishStream env assistantMessage st =
     (let st4 = st\<lparr>isStreaming := False\<rparr>
      in if abort st4 then Break st4
         else
           (let st5 = (if assistantMessage \<noteq> []
                       then st4\<lparr>apiConversationHistory := apiConversationHistory st4 @
                                   [\<lparr>role = Assistant, content = [TextContent assistantMessage]\<rparr>],
                                 clineMessages := clineMessages st4 @
                                   [Say (js ''assistant_message'') assistantMessage]\<rparr>
                       else st4)
            in if \<not> userMessageContentReady st5 then handleError env (waitTimeoutError env) st5
               else if hasCompletionTool (assistantMessageContent st5)
               then Break (emitEvent TaskCompleted st5)
               else Continue st5))"

definition iteration :: "task_env \<Rightarrow> task \<Rightarrow> step" where
  "iteration env st =
     (let messages = truncatedMessages st;
          st2 = startRequest env st
      in case createMessage env (apiRequestCount st2) messages of
           (chunks, err) \<Rightarrow>
             (case consumeStream env chunks [] st2 of
                (st3, assistantMessage, aborted) \<Rightarrow>
                  if aborted then Break (st3\<lparr>isStreaming := False\<rparr>)
                  else (case err of
                          Some e \<Rightarrow> handleError env e st3
                        | None \<Rightarrow> finishStream env assistantMessage st3)))"

text \<open>
  \<^verbatim>\<open>executeTaskLoop\<close>, with a bound on the number of passes: the loop can go on for
  ever.
\<close>

datatype loop_result =
    Returned (final: task)
  | Thrown api_error (final: task)
  | OutOfFuel (final: task)

fun executeTaskLoop :: "task_env \<Rightarrow> nat \<Rightarrow> task \<Rightarrow> loop_result" where
  "executeTaskLoop env 0 st = (if abort st then Returned st else OutOfFuel st)"
| "executeTaskLoop env (Suc n) st =
     (if abort st then Returned st
      else (case iteration env st of
              Continue st' \<Rightarrow> executeTaskLoop env n st'
            | Break st' \<Rightarrow> Returned st'
            | Throw e st' \<Rightarrow> Thrown e st'))"


subsection \<open>What presenting blocks leaves alone\<close>

definition loopFields :: "task \<Rightarrow> bool \<times> nat \<times> (int \<times> int) option \<times> nat option" where
  "loopFields st =
     (abort st, apiRequestCount st, conversationHistoryDeletedRange st, truncationNotice st)"

lemma executeTool_loopFields [simp]: "loopFields (executeTool env n a st) = loopFields st"
  by (simp add: loopFields_def executeTool_def emitEvent_def Let_def
      split: tool_call.splits sum.splits)

lemma presentBlock_loopFields [simp]: "loopFields (presentBlock env b st) = loopFields st"
  by (cases b) (simp_all add: presentBlock_def, simp_all add: loopFields_def emitEvent_def)

lemma presentAssistantMessage_loopFields [simp]:
  "loopFields (presentAssistantMessage env st) = loopFields st"
proof (induction env st rule: presentAssistantMessage.induct)
  case (1 env st)
  let ?b = "assistantMessageContent st ! currentStreamingContentIndex st"
  let ?st1 = "presentBlock env ?b st"
  let ?st2 = "?st1\<lparr>currentStreamingContentIndex := currentStreamingContentIndex ?st1 + 1\<rparr>"
  have st2: "loopFields ?st2 = loopFields st"
    using presentBlock_loopFields [of env ?b st] by (simp add: loopFields_def)
  show ?case
  proof (cases "currentStreamingContentIndex st \<ge> length (assistantMessageContent st)")
    case True
    then show ?thesis
      by (subst presentAssistantMessage.simps) (simp add: loopFields_def)
  next
    case False
    show ?thesis
    proof (cases "\<not> partial ?b \<and> currentStreamingContentIndex ?st2 < length (assistantMessageContent ?st2)")
      case True
      have "loopFields (presentAssistantMessage env ?st2) = loopFields ?st2"
        using False True by (intro "1.IH") auto
      then show ?thesis
        using False True st2 by (subst presentAssistantMessage.simps) (simp add: Let_def)
    next
      case False2: False
      show ?thesis
      proof (cases "partial ?b")
        case True
        then show ?thesis
          using False by (subst presentAssistantMessage.simps) (simp add: Let_def)
      next
        case False3: False
        have "loopFields (?st2\<lparr>userMessageContentReady := True\<rparr>) = loopFields ?st2"
          by (simp add: loopFields_def)
        then show ?thesis
          using False False2 False3 st2
          by (subst presentAssistantMessage.simps) (simp add: Let_def)
      qed
    qed
  qed
qed

lemma consumeStream_loopFields:
  "consumeStream env cs m st = (st', m', ab) \<Longrightarrow> loopFields st' = loopFields st"
proof (induction cs arbitrary: m st)
  case Nil
  then show ?case by simp
next
  case (Cons c cs)
  show ?case
  proof (cases "abort st")
    case True
    with Cons.prems show ?thesis by simp
  next
    case False
    show ?thesis
    proof (cases c)
      case (TextChunk t)
      let ?m = "m @ (case t of None \<Rightarrow> [] | Some x \<Rightarrow> x)"
      let ?st1 = "st\<lparr>assistantMessageContent := parseAssistantMessage (json_parse env) ?m\<rparr>"
      have "consumeStream env cs ?m (presentAssistantMessage env ?st1) = (st', m', ab)"
        using Cons.prems False TextChunk by (simp add: Let_def)
      then have "loopFields st' = loopFields (presentAssistantMessage env ?st1)"
        by (rule Cons.IH)
      then show ?thesis by (simp, simp add: loopFields_def)
    next
      case (UsageChunk u)
      then have "consumeStream env cs m (emitEvent (TokenUsage u) st) = (st', m', ab)"
        using Cons.prems False by simp
      then have "loopFields st' = loopFields (emitEvent (TokenUsage u) st)"
        by (rule Cons.IH)
      then show ?thesis by (simp add: loopFields_def emitEvent_def)
    next
      case ReasoningChunk
      then show ?thesis using Cons.prems False Cons.IH by simp
    qed
  qed
qed

lemma consumeStream_not_aborted:
  "\<not> abort st \<Longrightarrow> consumeStream env cs m st = (st', m', ab) \<Longrightarrow> \<not> ab"
proof (induction cs arbitrary: m st)
  case Nil
  then show ?case by simp
next
  case (Cons c cs)
  show ?case
  proof (cases c)
    case (TextChunk t)
    let ?m = "m @ (case t of None \<Rightarrow> [] | Some x \<Rightarrow> x)"
    let ?st1 = "st\<lparr>assistantMessageContent := parseAssistantMessage (json_parse env) ?m\<rparr>"
    have c: "consumeStream env cs ?m (presentAssistantMessage env ?st1) = (st', m', ab)"
      using Cons.prems TextChunk by (simp add: Let_def)
    have "loopFields (presentAssistantMessage env ?st1) = loopFields ?st1" by simp
    then have "\<not> abort (presentAssistantMessage env ?st1)"
      using Cons.prems(1) by (simp add: loopFields_def)
    then show ?thesis using c by (rule Cons.IH)
  next
    case (UsageChunk u)
    then have c: "consumeStream env cs m (emitEvent (TokenUsage u) st) = (st', m', ab)"
      using Cons.prems by simp
    have "\<not> abort (emitEvent (TokenUsage u) st)"
      using Cons.prems(1) by (simp add: emitEvent_def)
    then show ?thesis using c by (rule Cons.IH)
  next
    case ReasoningChunk
    then show ?thesis using Cons.prems Cons.IH by simp
  qed
qed


subsection \<open>The catch block\<close>

lemma compact_fields:
  "conversationHistoryDeletedRange (compactHistory k t st)
     = Some (getNextTruncationRange (apiConversationHistory st)
               (conversationHistoryDeletedRange st) k)"
  "truncationNotice (compactHistory k t st)
     = Some (case truncationNotice st of None \<Rightarrow> t | Some t0 \<Rightarrow> t0)"
  "apiConversationHistory (compactHistory k t st) = apiConversationHistory st"
  "apiRequestCount (compactHistory k t st) = apiRequestCount st"
  "abort (compactHistory k t st) = abort st"
  by (auto simp: compactHistory_def addTruncationNotice_def)

lemma startRequest_count: "apiRequestCount (startRequest env st) = apiRequestCount st + 1"
  by (simp add: startRequest_def Let_def compact_fields)

lemma startRequest_abort: "abort (startRequest env st) = abort st"
  by (simp add: startRequest_def Let_def compact_fields)

text \<open>
  C2 as amended. A pass of a running loop whose stream throws an error \<open>e\<close> after the
  chunks consumed into state \<open>st3\<close>. If \<open>e\<close> is a context-window error, the pass sets
  the range to \<open>getNextTruncationRange(history, range, "quarter")\<close>, records a truncation
  notice, leaves the history as it is, and the loop goes on with its next pass; the
  failed request has incremented \<^verbatim>\<open>apiRequestCount\<close> and the retry increments it again.
  Any other error is emitted as an error event and rethrown, which ends the loop.
\<close>

theorem stream_error_handling:
  assumes running: "\<not> abort st"
    and stream: "createMessage env (apiRequestCount (startRequest env st)) (truncatedMessages st)
                   = (chunks, Some e)"
    and consumed: "consumeStream env chunks [] (startRequest env st) = (st3, msg, aborted)"
  shows "(isContextWindowExceededError e \<longrightarrow>
            (let st' = compactHistory Quarter (now env (apiRequestCount st3)) st3
             in iteration env st = Continue st'
                \<and> executeTaskLoop env (Suc n) st = executeTaskLoop env n st'
                \<and> conversationHistoryDeletedRange st'
                     = Some (getNextTruncationRange (apiConversationHistory st3)
                               (conversationHistoryDeletedRange st3) Quarter)
                \<and> truncationNotice st' \<noteq> None
                \<and> apiConversationHistory st' = apiConversationHistory st3
                \<and> apiRequestCount st' = apiRequestCount st + 1
                \<and> apiRequestCount (startRequest env st') = apiRequestCount st + 2))
       \<and> (\<not> isContextWindowExceededError e \<longrightarrow>
            (let st' = emitEvent (ErrorEvent (error_message e)) st3
             in iteration env st = Throw e st'
                \<and> executeTaskLoop env (Suc n) st = Thrown e st'
                \<and> events st' = events st3 @ [ErrorEvent (error_message e)]))"
proof -
  have na: "\<not> aborted"
    using consumeStream_not_aborted [OF _ consumed] running by (simp add: startRequest_abort)
  have "loopFields st3 = loopFields (startRequest env st)"
    using consumed by (rule consumeStream_loopFields)
  then have cnt: "apiRequestCount st3 = apiRequestCount st + 1"
    by (simp add: loopFields_def startRequest_count)
  have it: "iteration env st = handleError env e st3"
    using stream consumed na by (simp add: iteration_def Let_def)
  show ?thesis
    using running cnt
    by (simp add: it handleError_def Let_def compact_fields startRequest_count emitEvent_def)
qed


subsection \<open>A run with one overflow\<close>

text \<open>
  The first request fails with the provider's context-window error, the second one
  streams a completion call in one chunk. \<open>example_retry\<close> is the state after the first
  pass, \<open>example_final\<close> the state in which the loop returns.
\<close>

definition completion_text :: jstring where
  "completion_text = js ''<tool_use><name>attempt_completion</name><input>{}</input></tool_use>''"

definition overflow_then_completion ::
  "nat \<Rightarrow> api_message list \<Rightarrow> chunk list \<times> api_error option" where
  "overflow_then_completion n messages =
     (if n = 1
      then ([], Some (ApiError (js ''ContextWindowExceededError'')
                        (js ''Context window exceeded for anthropic/claude'')))
      else ([TextChunk (Some completion_text)], None))"

definition example_env :: task_env where
  "example_env =
     \<lparr>mcpHub = False, json_parse = decode_empty_object,
      hub_callTool = (\<lambda>trace. Inl []),
      registry_executeTool = (\<lambda>trace. ToolResult True (js ''Task completed'')),
      createMessage = overflow_then_completion,
      maxTokens = 200000, now = (\<lambda>n. n),
      waitTimeoutError =
        ApiError (js ''TimeoutError'') (js ''Promise timed out after 300000 milliseconds'')\<rparr>"

definition example_task :: task where
  "example_task =
     \<lparr>apiConversationHistory = [userText (js ''<task>hi</task>'')], clineMessages = [],
      events = [], toolCalls = [], assistantMessageContent = [],
      currentStreamingContentIndex = 0, isStreaming = False,
      userMessageContentReady = False, abort = False, apiRequestCount = 0,
      didEditFile = False, conversationHistoryDeletedRange = None,
      truncationNotice = None\<rparr>"

definition example_retry :: task where
  "example_retry =
     example_task\<lparr>isStreaming := True, apiRequestCount := 1,
                   conversationHistoryDeletedRange := Some (2, - 2),
                   truncationNotice := Some 1\<rparr>"

definition example_final :: task where
  "example_final =
     \<lparr>apiConversationHistory =
        [userText (js ''<task>hi</task>''),
         userText (js ''Tool \"attempt_completion\" result: Task completed''),
         \<lparr>role = Assistant, content = [TextContent completion_text]\<rparr>],
      clineMessages =
        [Say (js ''tool_result'') (js ''attempt_completion: Task completed''),
         Say (js ''assistant_message'') completion_text],
      events =
        [ToolExecutionStarted (js ''attempt_completion'') (JObject []),
         ToolExecuted (js ''attempt_completion'') (JObject [])
           (ToolResult True (js ''Task completed'')),
         TaskCompleted],
      toolCalls = [RegistryExecuteTool (js ''attempt_completion'') (JObject [])],
      assistantMessageContent = [ToolUseBlock (js ''attempt_completion'') (JObject []) False],
      currentStreamingContentIndex = 1, isStreaming = False,
      userMessageContentReady = True, abort = False, apiRequestCount = 2,
      didEditFile = False, conversationHistoryDeletedRange = Some (2, - 2),
      truncationNotice = Some 1\<rparr>"

lemma blockTokens_text: "blockTokens (TextContent t) = (length t + 3) div 4"
proof -
  have "\<lceil>real (length t) / 4\<rceil> = \<lceil>real_of_int (int (length t)) / real_of_int 4\<rceil>" by simp
  also have "\<dots> = - ((- int (length t)) div 4)"
    by (simp only: ceiling_divide_eq_div)
  also have "\<dots> = int ((length t + 3) div 4)" by linarith
  finally show ?thesis by simp
qed

lemma maxAllowedSize_div: "maxAllowedSize env = (int (maxTokens env) * 4) div 5"
proof -
  have "real (maxTokens env) * 0.8 = real_of_int (int (maxTokens env) * 4) / real_of_int 5"
    by simp
  then show ?thesis
    unfolding maxAllowedSize_def by (simp only: floor_divide_of_int_eq)
qed

lemma example_parse:
  "parseAssistantMessage decode_empty_object completion_text
     = [ToolUseBlock (js ''attempt_completion'') (JObject []) False]"
  by (simp add: completion_text_def decode_empty_object_def parseAssistantMessage_def
      parse_loop.simps toolUseRegex_def is_space_def match_here_def trim_def textBefore_def
      toolBlock_def)

lemma example_first_iteration: "iteration example_env example_task = Continue example_retry"
  by (simp add: example_env_def example_task_def example_retry_def
      overflow_then_completion_def iteration_def startRequest_def truncatedMessages_def
      estimateTokenCount_def blockTokens_text maxAllowedSize_div getTruncatedMessages_def
      userText_def handleError_def isContextWindowExceededError_def compactHistory_def
      addTruncationNotice_def Let_def getNextTruncationRange_def startOfRest_def
      messagesToRemove_div nth_opt_def)

lemma example_start_retry:
  "startRequest example_env example_retry
     = example_retry\<lparr>apiRequestCount := 2, userMessageContentReady := False\<rparr>"
  by (simp add: example_env_def example_task_def example_retry_def
      startRequest_def truncatedMessages_def
      estimateTokenCount_def blockTokens_text maxAllowedSize_div getTruncatedMessages_def
      userText_def Let_def)

lemma completion_text_not_Nil: "completion_text \<noteq> []"
  by (simp add: completion_text_def)

lemma example_consume:
  "consumeStream example_env [TextChunk (Some completion_text)] []
     (example_retry\<lparr>apiRequestCount := 2, userMessageContentReady := False\<rparr>)
   = (example_final\<lparr>isStreaming := True,
         apiConversationHistory := butlast (apiConversationHistory example_final),
         clineMessages := butlast (clineMessages example_final),
         events := butlast (events example_final)\<rparr>, completion_text, False)"
  apply (simp add: example_retry_def example_task_def)
  apply (simp add: example_env_def example_parse presentAssistantMessage.simps)
  apply (simp add: presentBlock_def executeTool_def toolCall_def emitEvent_def Let_def example_final_def)
  done


lemma example_second_iteration: "iteration example_env example_retry = Break example_final"
proof -
  have cm: "createMessage example_env 2 msgs = ([TextChunk (Some completion_text)], None)" for msgs
    by (simp add: example_env_def overflow_then_completion_def)
  have wt: "userMessageContentReady example_final" "\<not> abort example_final"
    "hasCompletionTool (assistantMessageContent example_final)"
    by (simp_all add: example_final_def hasCompletionTool_def)
  show ?thesis
    unfolding iteration_def Let_def example_start_retry
    apply (simp add: cm example_consume del: consumeStream.simps)
    apply (simp add: finishStream_def Let_def completion_text_not_Nil)
    apply (simp add: example_final_def hasCompletionTool_def emitEvent_def)
    done
qed

text \<open>
  C2 as stated: the retry after a context-window error is not counted as a new turn.
  The only count the Task keeps is \<^verbatim>\<open>apiRequestCount\<close>, incremented at the top of every
  pass of the loop, and the retry is a pass like any other: one overflow followed by one
  completed turn (a single assistant message in the history) leaves the count at 2.
\<close>

theorem retry_counted_counterexample:
  "executeTaskLoop example_env (Suc (Suc 0)) example_task = Returned example_final
   \<and> apiRequestCount example_final = 2
   \<and> map role (apiConversationHistory example_final) = [User, User, Assistant]"
proof -
  have "\<not> abort example_task" "\<not> abort example_retry"
    by (simp_all add: example_task_def example_retry_def)
  then have "executeTaskLoop example_env (Suc (Suc 0)) example_task = Returned example_final"
    by (simp add: example_first_iteration example_second_iteration)
  then show ?thesis
    by (simp add: example_final_def userText_def)
qed

definition rate_limited :: "nat \<Rightarrow> api_message list \<Rightarrow> chunk list \<times> api_error option" where
  "rate_limited n messages =
     ([], Some (ApiError (js ''RateLimitError'') (js ''Rate limit exceeded for anthropic'')))"

theorem stream_error_handling_witness:
  "iteration example_env example_task = Continue example_retry
   \<and> executeTaskLoop example_env (Suc 0) example_task
       = executeTaskLoop example_env 0 example_retry
   \<and> conversationHistoryDeletedRange example_retry = Some (2, - 2)
   \<and> truncationNotice example_retry = Some 1
   \<and> apiRequestCount example_retry = 1
   \<and> apiRequestCount (startRequest example_env example_retry) = 2
   \<and> executeTaskLoop (example_env\<lparr>createMessage := rate_limited\<rparr>) (Suc 0) example_task
       = Thrown (ApiError (js ''RateLimitError'') (js ''Rate limit exceeded for anthropic''))
           (example_task\<lparr>isStreaming := True, apiRequestCount := 1,
              events := [ErrorEvent (js ''Rate limit exceeded for anthropic'')]\<rparr>)"
proof -
  let ?cwe = "ApiError (js ''ContextWindowExceededError'')
                (js ''Context window exceeded for anthropic/claude'')"
  let ?rl = "ApiError (js ''RateLimitError'') (js ''Rate limit exceeded for anthropic'')"
  let ?env2 = "example_env\<lparr>createMessage := rate_limited\<rparr>"
  let ?st2 = "example_task\<lparr>isStreaming := True, apiRequestCount := 1\<rparr>"
  have run: "\<not> abort example_task" by (simp add: example_task_def)
  have sr: "startRequest example_env example_task = ?st2"
    "startRequest ?env2 example_task = ?st2"
    by (simp_all add: example_env_def example_task_def startRequest_def truncatedMessages_def
        estimateTokenCount_def blockTokens_text maxAllowedSize_div getTruncatedMessages_def
        userText_def Let_def)
  have cnt: "apiRequestCount ?st2 = 1" by simp
  have s1: "createMessage example_env (apiRequestCount (startRequest example_env example_task))
              (truncatedMessages example_task) = ([], Some ?cwe)"
    unfolding sr cnt by (simp add: example_env_def overflow_then_completion_def)
  have s2: "createMessage ?env2 (apiRequestCount (startRequest ?env2 example_task))
              (truncatedMessages example_task) = ([], Some ?rl)"
    unfolding sr cnt by (simp add: rate_limited_def)
  have c1: "consumeStream example_env [] [] (startRequest example_env example_task)
              = (?st2, [], False)"
    and c2: "consumeStream ?env2 [] [] (startRequest ?env2 example_task) = (?st2, [], False)"
    unfolding sr by simp_all
  have k1: "isContextWindowExceededError ?cwe" and k2: "\<not> isContextWindowExceededError ?rl"
    by (simp_all add: isContextWindowExceededError_def)
  have r: "compactHistory Quarter (now example_env (apiRequestCount ?st2)) ?st2 = example_retry"
    by (simp add: example_env_def example_task_def example_retry_def compactHistory_def
        addTruncationNotice_def getNextTruncationRange_def startOfRest_def messagesToRemove_div
        nth_opt_def userText_def Let_def)
  have e: "emitEvent (ErrorEvent (error_message ?rl)) ?st2
             = example_task\<lparr>isStreaming := True, apiRequestCount := 1,
                  events := [ErrorEvent (js ''Rate limit exceeded for anthropic'')]\<rparr>"
    by (simp add: emitEvent_def example_task_def)
  from stream_error_handling [OF run s1 c1, of 0] stream_error_handling [OF run s2 c2, of 0]
    k1 k2
  show ?thesis
    by (simp only: Let_def r e simp_thms) (simp add: example_retry_def example_task_def)
qed

section \<open>The truncated view\<close>

text \<open>
  C6. For a history of more than one message and any range (absent or present), the view
  starts with the messages at indices 0 and 1. The view is read off the stored history:
  it is the stored messages at the positions that \<^const>\<open>getTruncatedMessages\<close> selects
  from the index list. For a range \<open>(s, e)\<close> with \<open>2 \<le> s\<close>, no position from \<open>s\<close> to
  \<open>e\<close> is among the selected ones. The stored history is not touched: computing the view
  is a pure slice-and-concatenate of its argument, and the two operations of the Task
  that set a range (the compaction, and the start of a request, which may compact) leave
  \<^verbatim>\<open>apiConversationHistory\<close> as it is.
\<close>

theorem truncated_view_keeps_first_pair:
  "(1 < length msgs \<longrightarrow>
      take 2 (getTruncatedMessages msgs r) = [msgs ! 0, msgs ! 1]
      \<and> msgs ! 0 \<in> set (getTruncatedMessages msgs r)
      \<and> msgs ! 1 \<in> set (getTruncatedMessages msgs r))
   \<and> getTruncatedMessages msgs r
       = map (\<lambda>i. msgs ! i) (getTruncatedMessages [0..<length msgs] r)
   \<and> (2 \<le> s \<and> s \<le> int i \<and> int i \<le> e \<longrightarrow>
        i \<notin> set (getTruncatedMessages [0..<length msgs] (Some (s, e))))
   \<and> apiConversationHistory (compactHistory k t st) = apiConversationHistory st
   \<and> apiConversationHistory (startRequest env st) = apiConversationHistory st"
proof (intro conjI impI)
  assume len: "1 < length msgs"
  then obtain a b rest where msgs: "msgs = a # b # rest"
    by (cases msgs; cases "tl msgs") auto
  show t: "take 2 (getTruncatedMessages msgs r) = [msgs ! 0, msgs ! 1]"
    unfolding msgs by (cases r) (auto simp: getTruncatedMessages_def)
  have "set (take 2 (getTruncatedMessages msgs r)) \<subseteq> set (getTruncatedMessages msgs r)"
    by (rule set_take_subset)
  then show "msgs ! 0 \<in> set (getTruncatedMessages msgs r)"
    and "msgs ! 1 \<in> set (getTruncatedMessages msgs r)"
    unfolding t by simp_all
next
  have "getTruncatedMessages (map (\<lambda>i. msgs ! i) [0..<length msgs]) r
          = map (\<lambda>i. msgs ! i) (getTruncatedMessages [0..<length msgs] r)"
    by (rule getTruncatedMessages_map)
  then show "getTruncatedMessages msgs r
               = map (\<lambda>i. msgs ! i) (getTruncatedMessages [0..<length msgs] r)"
    by (simp add: map_nth)
next
  assume a: "2 \<le> s \<and> s \<le> int i \<and> int i \<le> e"
  show "i \<notin> set (getTruncatedMessages [0..<length msgs] (Some (s, e)))"
  proof
    assume "i \<in> set (getTruncatedMessages [0..<length msgs] (Some (s, e)))"
    then have "i \<in> set (take 2 [0..<length msgs])
                 \<or> i \<in> set (slice_from [0..<length msgs] (e + 1))"
      using a by (auto simp: getTruncatedMessages_def split: if_splits)
    then show False
    proof
      assume "i \<in> set (take 2 [0..<length msgs])"
      then have "i < 2" by (auto simp: in_set_conv_nth)
      with a show False by simp
    next
      assume "i \<in> set (slice_from [0..<length msgs] (e + 1))"
      then have "nat (e + 1) \<le> i"
        using a by (auto simp: slice_from_def Let_def min_def split: if_splits)
      with a show False by linarith
    qed
  qed
next
  show "apiConversationHistory (compactHistory k t st) = apiConversationHistory st"
    by (rule compact_fields)
next
  show "apiConversationHistory (startRequest env st) = apiConversationHistory st"
    by (simp add: startRequest_def Let_def compact_fields)
qed

theorem truncated_view_keeps_first_pair_witness:
  "(let h = [\<lparr>role = User, content = (0::nat)\<rparr>, \<lparr>role = Assistant, content = 1\<rparr>,
             \<lparr>role = User, content = 2\<rparr>, \<lparr>role = Assistant, content = 3\<rparr>,
             \<lparr>role = User, content = 4\<rparr>]
    in 1 < length h
       \<and> take 2 (getTruncatedMessages h (Some (2, 3))) = [h ! 0, h ! 1]
       \<and> getTruncatedMessages h (Some (2, 3)) = [h ! 0, h ! 1, h ! 4]
       \<and> getTruncatedMessages [0..<length h] (Some (2, 3)) = [0, 1, 4]
       \<and> (2::int) \<le> 2 \<and> (2::int) \<le> int 3 \<and> int 3 \<le> (3::int)
       \<and> 3 \<notin> set (getTruncatedMessages [0..<length h] (Some (2, 3)))
       \<and> apiConversationHistory (compactHistory Half 0 example_task)
           = apiConversationHistory example_task)"
proof -
  let ?h = "[\<lparr>role = User, content = (0::nat)\<rparr>, \<lparr>role = Assistant, content = 1\<rparr>,
             \<lparr>role = User, content = 2\<rparr>, \<lparr>role = Assistant, content = 3\<rparr>,
             \<lparr>role = User, content = 4\<rparr>]"
  have len: "1 < length ?h" by simp
  have idx: "getTruncatedMessages [0..<length ?h] (Some (2, 3)) = [0, 1, 4]"
    by (simp add: getTruncatedMessages_def slice_from_def Let_def upt_rec)
  from truncated_view_keeps_first_pair
         [of ?h "Some (2, 3)" 2 3 3 Half 0 example_task example_env] len idx
  show ?thesis by (simp add: Let_def)
qed

section \<open>Tool results in the history\<close>

text \<open>
  The tool-invocation blocks that \<^const>\<open>presentBlock\<close> executes, in order: those with a
  non-empty name and a truthy input. \<open>toolOutcome\<close> is what the environment answers to
  a call made after the calls in \<open>trace\<close>, \<open>resultMessage\<close> the user message that
  \<^const>\<open>executeTool\<close> appends for it, and \<open>toolMessages\<close> the messages appended for a
  list of invocations executed one after the other.
\<close>

fun invocations :: "block list \<Rightarrow> (jstring \<times> json) list" where
  "invocations [] = []"
| "invocations (TextBlock t p # bs) = invocations bs"
| "invocations (ToolUseBlock n inp p # bs) =
     (if n \<noteq> [] \<and> truthy inp then (n, inp) # invocations bs else invocations bs)"

definition toolOutcome ::
  "task_env \<Rightarrow> json tool_call list \<Rightarrow> jstring \<Rightarrow> json \<Rightarrow> jstring + tool_result" where
  "toolOutcome env trace toolName args =
     (case toolCall (mcpHub env) toolName args of
        HubCallTool serverName mcpToolName a \<Rightarrow>
          (case hub_callTool env (trace @ [toolCall (mcpHub env) toolName args]) of
             Inl err \<Rightarrow> Inl err
           | Inr mcpResult \<Rightarrow> Inr (mcpToolResult mcpResult))
      | RegistryExecuteTool n a \<Rightarrow>
          Inr (registry_executeTool env (trace @ [toolCall (mcpHub env) toolName args])))"

definition resultMessage :: "jstring \<Rightarrow> jstring + tool_result \<Rightarrow> api_message" where
  "resultMessage toolName outcome =
     (case outcome of
        Inr result \<Rightarrow>
          userText (js ''Tool \"'' @ toolName @ js ''\" result: '' @ result_content result)
      | Inl errorMessage \<Rightarrow>
          userText (js ''Tool \"'' @ toolName @ js ''\" failed: '' @ errorMessage))"

fun toolMessages ::
  "task_env \<Rightarrow> json tool_call list \<Rightarrow> (jstring \<times> json) list \<Rightarrow> api_message list" where
  "toolMessages env trace [] = []"
| "toolMessages env trace ((n, a) # invs) =
     resultMessage n (toolOutcome env trace n a)
       # toolMessages env (trace @ [toolCall (mcpHub env) n a]) invs"

definition callsOf :: "task_env \<Rightarrow> (jstring \<times> json) list \<Rightarrow> json tool_call list" where
  "callsOf env invs = map (\<lambda>(n, a). toolCall (mcpHub env) n a) invs"

subsection \<open>Presenting a run of finished blocks\<close>

lemma executeTool_history:
  "apiConversationHistory (executeTool env n a st)
     = apiConversationHistory st @ [resultMessage n (toolOutcome env (toolCalls st) n a)]"
  by (simp add: executeTool_def toolOutcome_def resultMessage_def emitEvent_def Let_def
      split: tool_call.splits sum.splits)

lemma executeTool_calls:
  "toolCalls (executeTool env n a st) = toolCalls st @ [toolCall (mcpHub env) n a]"
  by (simp add: executeTool_def emitEvent_def Let_def split: tool_call.splits sum.splits)

lemma presentBlock_history:
  "apiConversationHistory (presentBlock env b st)
     = apiConversationHistory st @ toolMessages env (toolCalls st) (invocations [b])"
  by (cases b) (simp_all add: presentBlock_def emitEvent_def executeTool_history)

lemma presentBlock_calls:
  "toolCalls (presentBlock env b st) = toolCalls st @ callsOf env (invocations [b])"
  by (cases b) (simp_all add: presentBlock_def emitEvent_def executeTool_calls callsOf_def)

lemma invocations_append: "invocations (xs @ ys) = invocations xs @ invocations ys"
  by (induction xs rule: invocations.induct) simp_all

lemma toolMessages_append:
  "toolMessages env trace (xs @ ys)
     = toolMessages env trace xs @ toolMessages env (trace @ callsOf env xs) ys"
  by (induction xs arbitrary: trace) (auto simp: callsOf_def)

lemma callsOf_append: "callsOf env (xs @ ys) = callsOf env xs @ callsOf env ys"
  by (simp add: callsOf_def)

lemma toolMessages_length: "length (toolMessages env trace invs) = length invs"
  by (induction invs arbitrary: trace) auto

lemma toolMessages_role: "m \<in> set (toolMessages env trace invs) \<Longrightarrow> role m = User"
  by (induction invs arbitrary: trace)
     (auto simp: resultMessage_def userText_def split: sum.splits)

text \<open>The tail of a parsed message: nothing, or one partial text block.\<close>

definition open_tail :: "block list \<Rightarrow> bool" where
  "open_tail tail \<longleftrightarrow> tail = [] \<or> (\<exists>t. tail = [TextBlock t True])"

lemma present_run:
  assumes "assistantMessageContent st = pre @ mid @ tail"
    and "currentStreamingContentIndex st = length pre"
    and "\<forall>b \<in> set mid. \<not> partial b"
    and "open_tail tail"
  shows "assistantMessageContent (presentAssistantMessage env st) = pre @ mid @ tail
       \<and> currentStreamingContentIndex (presentAssistantMessage env st) = length (pre @ mid)
       \<and> apiConversationHistory (presentAssistantMessage env st)
           = apiConversationHistory st @ toolMessages env (toolCalls st) (invocations mid)
       \<and> toolCalls (presentAssistantMessage env st)
           = toolCalls st @ callsOf env (invocations mid)
       \<and> (tail = [] \<longrightarrow> userMessageContentReady (presentAssistantMessage env st))"
  using assms
proof (induction mid arbitrary: st pre)
  case Nil
  show ?case
  proof (cases "tail = []")
    case True
    have "presentAssistantMessage env st = st\<lparr>userMessageContentReady := True\<rparr>"
      using Nil.prems True by (subst presentAssistantMessage.simps) simp
    then show ?thesis
      using Nil.prems True by (simp add: callsOf_def)
  next
    case False
    then obtain t where t: "tail = [TextBlock t True]"
      using Nil.prems(4) by (auto simp: open_tail_def)
    have b: "assistantMessageContent st ! currentStreamingContentIndex st = TextBlock t True"
      using Nil.prems t by simp
    have lt: "\<not> length (assistantMessageContent st) \<le> currentStreamingContentIndex st"
      using Nil.prems t by simp
    have "presentAssistantMessage env st = presentBlock env (TextBlock t True) st"
      by (subst presentAssistantMessage.simps) (simp add: b lt Let_def)
    then show ?thesis
      using Nil.prems t by (simp add: presentBlock_def emitEvent_def callsOf_def)
  qed
next
  case (Cons m mid)
  let ?st1 = "presentBlock env m st"
  let ?st2 = "?st1\<lparr>currentStreamingContentIndex := currentStreamingContentIndex ?st1 + 1\<rparr>"
  have b: "assistantMessageContent st ! currentStreamingContentIndex st = m"
    using Cons.prems by simp
  have lt: "\<not> length (assistantMessageContent st) \<le> currentStreamingContentIndex st"
    using Cons.prems by simp
  have np: "\<not> partial m" using Cons.prems by simp
  have c2: "assistantMessageContent ?st2 = (pre @ [m]) @ mid @ tail"
    "currentStreamingContentIndex ?st2 = length (pre @ [m])"
    using Cons.prems by simp_all
  have h2: "apiConversationHistory ?st2
              = apiConversationHistory st @ toolMessages env (toolCalls st) (invocations [m])"
    "toolCalls ?st2 = toolCalls st @ callsOf env (invocations [m])"
    by (simp_all add: presentBlock_history presentBlock_calls)
  have split: "invocations (m # mid) = invocations [m] @ invocations mid"
    using invocations_append [of "[m]" mid] by simp
  show ?case
  proof (cases "mid @ tail = []")
    case True
    then have e: "mid = []" "tail = []" by simp_all
    have "presentAssistantMessage env st = ?st2\<lparr>userMessageContentReady := True\<rparr>"
      using c2 e by (subst presentAssistantMessage.simps) (simp add: b lt np Let_def)
    then show ?thesis
      using c2 h2 e by simp
  next
    case False
    then have more: "currentStreamingContentIndex ?st2 < length (assistantMessageContent ?st2)"
      unfolding c2 by (cases mid; cases tail) simp_all
    have step: "presentAssistantMessage env st = presentAssistantMessage env ?st2"
      using more by (subst presentAssistantMessage.simps) (simp add: b lt np Let_def)
    have ih: "assistantMessageContent (presentAssistantMessage env ?st2) = (pre @ [m]) @ mid @ tail
       \<and> currentStreamingContentIndex (presentAssistantMessage env ?st2) = length ((pre @ [m]) @ mid)
       \<and> apiConversationHistory (presentAssistantMessage env ?st2)
           = apiConversationHistory ?st2 @ toolMessages env (toolCalls ?st2) (invocations mid)
       \<and> toolCalls (presentAssistantMessage env ?st2)
           = toolCalls ?st2 @ callsOf env (invocations mid)
       \<and> (tail = [] \<longrightarrow> userMessageContentReady (presentAssistantMessage env ?st2))"
      using Cons.prems by (intro Cons.IH c2) simp_all
    show ?thesis
      unfolding step split using ih
      by (simp only: h2 toolMessages_append callsOf_append append_assoc)
         simp
  qed
qed

section \<open>The parse of a longer buffer\<close>

text \<open>
  The buffer is parsed anew at every chunk. What has been parsed as finished blocks stays
  as it is when the buffer grows: a match found in the buffer is found again, with the
  same groups, in every extension of the buffer, and no earlier match appears.
\<close>

lemma rmatch_Cap_caps: "rmatch (Cap # its) s = Some (caps, r) \<Longrightarrow> caps \<noteq> []"
  by (cases s) (auto split: option.splits list.splits)

lemma rmatch_Cap_find:
  "rmatch its y = Some r \<Longrightarrow> \<exists>r'. rmatch (Cap # its) (x @ y) = Some r'"
proof (induction x)
  case Nil
  then show ?case by (cases y; cases r) auto
next
  case (Cons c x)
  then obtain caps rest where s: "rmatch (Cap # its) (x @ y) = Some (caps, rest)"
    by fastforce
  then obtain cap caps' where "caps = cap # caps'"
    using rmatch_Cap_caps [OF s] by (cases caps) auto
  with s show ?case
    by (auto split: option.splits)
qed

lemma rmatch_Cap_decomp:
  "rmatch (Cap # its) s = Some (caps', r) \<Longrightarrow>
     \<exists>cap caps y. caps' = cap # caps \<and> s = cap @ y \<and> rmatch its y = Some (caps, r)
       \<and> (\<forall>u v. cap = u @ v \<and> v \<noteq> [] \<longrightarrow> rmatch its (v @ y) = None)"
proof (induction s arbitrary: caps')
  case Nil
  then show ?case by (auto split: option.splits)
next
  case (Cons c cs)
  show ?case
  proof (cases "rmatch its (c # cs)")
    case (Some res)
    with Cons.prems show ?thesis by (cases res) auto
  next
    case None
    with Cons.prems obtain cap0 caps where
      rec: "rmatch (Cap # its) cs = Some (cap0 # caps, r)" and c': "caps' = (c # cap0) # caps"
      by (auto split: option.splits list.splits)
    from Cons.IH [OF rec] obtain y where
      y: "cs = cap0 @ y" "rmatch its y = Some (caps, r)"
      "\<forall>u v. cap0 = u @ v \<and> v \<noteq> [] \<longrightarrow> rmatch its (v @ y) = None"
      by auto
    have "rmatch its (v @ y) = None" if "c # cap0 = u @ v" "v \<noteq> []" for u v
    proof (cases u)
      case Nil
      with that(1) have "v = c # cap0" by simp
      then show ?thesis using None y(1) by simp
    next
      case (Cons a u')
      with that y(3) show ?thesis by auto
    qed
    with y c' show ?thesis by auto
  qed
qed

lemma rmatch_LWL_decomp:
  assumes "tag_lit l2" and "rmatch (Lit l1 # Ws # Lit l2 # its) s = Some res"
  shows "\<exists>ws y. (\<forall>c \<in> set ws. is_space c) \<and> s = l1 @ ws @ l2 @ y \<and> rmatch its y = Some res"
proof -
  from assms(1) obtain l' where l2: "l2 = lt # l'" by (auto simp: tag_lit_def)
  from assms(2) have p1: "prefix l1 s"
    and r1: "rmatch (Ws # Lit l2 # its) (drop (length l1) s) = Some res"
    by (auto split: if_splits)
  let ?s' = "drop (length l1) s"
  have s: "s = l1 @ ?s'" using p1 by (auto simp: prefix_def)
  have "rmatch (Ws # Lit l2 # its) ?s' = rmatch (Lit l2 # its) (dropWhile is_space ?s')"
    by (rule rmatch_Ws_Lit) (simp_all add: l2 lt_not_space)
  with r1 have p2: "prefix l2 (dropWhile is_space ?s')"
    and r2: "rmatch its (drop (length l2) (dropWhile is_space ?s')) = Some res"
    by (auto split: if_splits)
  let ?y = "drop (length l2) (dropWhile is_space ?s')"
  have d: "dropWhile is_space ?s' = l2 @ ?y" using p2 by (auto simp: prefix_def)
  have "?s' = takeWhile is_space ?s' @ l2 @ ?y"
    using takeWhile_dropWhile_id [of is_space ?s'] d by simp
  then have "s = l1 @ takeWhile is_space ?s' @ l2 @ ?y"
    using s by simp
  moreover have "\<forall>c \<in> set (takeWhile is_space ?s'). is_space c"
    by (auto dest: set_takeWhileD)
  ultimately show ?thesis using r2 by blast
qed

lemma clash_prefix:
  "\<not> prefix l2 k \<Longrightarrow> \<not> prefix k l2 \<Longrightarrow> \<not> prefix l2 (k @ Z)"
proof
  assume a: "\<not> prefix l2 k" "\<not> prefix k l2" and "prefix l2 (k @ Z)"
  then have "prefix l2 k \<or> (\<exists>us. l2 = k @ us \<and> prefix us Z)"
    by (simp add: prefix_append)
  with a show False by auto
qed

lemma rmatch_LWL_local:
  assumes lits: "tag_lit l1" "tag_lit l2" "tag_lit k"
    and clash: "\<not> prefix l2 k" "\<not> prefix k l2"
    and v: "v \<noteq> []"
  shows "(\<forall>Z. rmatch (Lit l1 # Ws # Lit l2 # its) (v @ k @ Z) = None)
       \<or> (\<exists>u. \<forall>Z. rmatch (Lit l1 # Ws # Lit l2 # its) (v @ k @ Z) = rmatch its (u @ k @ Z))"
proof (cases "prefix l1 v")
  case False
  then have "\<not> prefix l1 (v @ k @ Z)" for Z
    by (simp add: prefix_tag_no_overlap [OF lits(1) lits(3) v])
  then show ?thesis by simp
next
  case True
  then obtain u0 where v0: "v = l1 @ u0" by (auto simp: prefix_def)
  from lits(2) obtain l' where l2: "l2 = lt # l'" by (auto simp: tag_lit_def)
  have step: "rmatch (Lit l1 # Ws # Lit l2 # its) (v @ k @ Z)
                = rmatch (Lit l2 # its) (dropWhile is_space (u0 @ k @ Z))" for Z
  proof -
    have "rmatch (Lit l1 # Ws # Lit l2 # its) (v @ k @ Z)
            = rmatch (Ws # Lit l2 # its) (u0 @ k @ Z)"
      by (simp add: v0)
    also have "\<dots> = rmatch (Lit l2 # its) (dropWhile is_space (u0 @ k @ Z))"
      by (rule rmatch_Ws_Lit) (simp_all add: l2 lt_not_space)
    finally show ?thesis .
  qed
  show ?thesis
  proof (cases "\<forall>c \<in> set u0. is_space c")
    case True
    have "dropWhile is_space (u0 @ k @ Z) = k @ Z" for Z
      by (rule dropWhile_spaces_tag [OF lits(3) True])
    moreover have "\<not> prefix l2 (k @ Z)" for Z
      by (rule clash_prefix [OF clash])
    ultimately have "rmatch (Lit l2 # its) (dropWhile is_space (u0 @ k @ Z)) = None" for Z
      by simp
    then show ?thesis
      by (simp only: step simp_thms)
  next
    case False
    let ?u1 = "dropWhile is_space u0"
    have u1: "?u1 \<noteq> []" using False by (simp add: dropWhile_eq_Nil_conv)
    have d: "dropWhile is_space (u0 @ k @ Z) = ?u1 @ k @ Z" for Z
      using False by (auto simp: dropWhile_append1)
    show ?thesis
    proof (cases "prefix l2 ?u1")
      case False
      then have "\<not> prefix l2 (?u1 @ k @ Z)" for Z
        by (simp add: prefix_tag_no_overlap [OF lits(2) lits(3) u1])
      then have "rmatch (Lit l2 # its) (dropWhile is_space (u0 @ k @ Z)) = None" for Z
        by (simp add: d)
      then show ?thesis
        by (simp only: step simp_thms)
    next
      case True
      then obtain u2 where "?u1 = l2 @ u2" by (auto simp: prefix_def)
      then have "rmatch (Lit l2 # its) (dropWhile is_space (u0 @ k @ Z))
                   = rmatch its (u2 @ k @ Z)" for Z
        by (simp add: d)
      then have "\<forall>Z. rmatch (Lit l1 # Ws # Lit l2 # its) (v @ k @ Z) = rmatch its (u2 @ k @ Z)"
        by (simp only: step simp_thms)
      then show ?thesis by blast
    qed
  qed
qed

lemma rmatch_LWL_none_stable:
  assumes lits: "tag_lit l1" "tag_lit l2" "tag_lit k"
    and clash: "\<not> prefix l2 k" "\<not> prefix k l2"
    and v: "v \<noteq> []"
    and found: "\<And>u. rmatch its (u @ k @ Z) \<noteq> None"
    and none: "rmatch (Lit l1 # Ws # Lit l2 # its) (v @ k @ Z) = None"
  shows "rmatch (Lit l1 # Ws # Lit l2 # its) (v @ k @ Z') = None"
  using rmatch_LWL_local [OF lits clash v, of its] found none by metis


lemma rmatch_Cap_find_later:
  assumes "rmatch (Cap # its) y = Some r"
  shows "rmatch (Cap # its) (x @ y) \<noteq> None"
proof -
  obtain caps rest where r: "r = (caps, rest)" by (cases r)
  from rmatch_Cap_decomp [OF assms [unfolded r]] obtain cap caps' y' where
    "y = cap @ y'" "rmatch its y' = Some (caps', rest)"
    by auto
  then show ?thesis
    using rmatch_Cap_find [of its y' "(caps', rest)" "x @ cap"] by auto
qed

lemma rmatch_tag_decomp:
  assumes lits: "tag_lit b" "tag_lit d" "tag_lit f"
    and m: "rmatch [Lit a, Ws, Lit b, Cap, Lit c, Ws, Lit d, Cap, Lit e, Ws, Lit f] x
              = Some (caps, r)"
  obtains ws1 n ws2 p ws3 where
    "x = a @ ws1 @ b @ n @ c @ ws2 @ d @ p @ e @ ws3 @ f @ r" "caps = [n, p]"
    "\<forall>s \<in> set ws1. is_space s" "\<forall>s \<in> set ws2. is_space s" "\<forall>s \<in> set ws3. is_space s"
    "\<And>u v. n = u @ v \<Longrightarrow> v \<noteq> [] \<Longrightarrow>
        rmatch [Lit c, Ws, Lit d, Cap, Lit e, Ws, Lit f]
          (v @ c @ ws2 @ d @ p @ e @ ws3 @ f @ r) = None"
    "\<And>u v. p = u @ v \<Longrightarrow> v \<noteq> [] \<Longrightarrow>
        rmatch [Lit e, Ws, Lit f] (v @ e @ ws3 @ f @ r) = None"
proof -
  from rmatch_LWL_decomp [OF lits(1) m] obtain ws1 y1 where
    w1: "\<forall>s \<in> set ws1. is_space s" and x: "x = a @ ws1 @ b @ y1"
    and r1: "rmatch [Cap, Lit c, Ws, Lit d, Cap, Lit e, Ws, Lit f] y1 = Some (caps, r)"
    by auto
  from rmatch_Cap_decomp [OF r1] obtain n caps1 y2 where
    c1: "caps = n # caps1" and y1: "y1 = n @ y2"
    and r2: "rmatch [Lit c, Ws, Lit d, Cap, Lit e, Ws, Lit f] y2 = Some (caps1, r)"
    and mn: "\<forall>u v. n = u @ v \<and> v \<noteq> [] \<longrightarrow>
               rmatch [Lit c, Ws, Lit d, Cap, Lit e, Ws, Lit f] (v @ y2) = None"
    by auto
  from rmatch_LWL_decomp [OF lits(2) r2] obtain ws2 y3 where
    w2: "\<forall>s \<in> set ws2. is_space s" and y2: "y2 = c @ ws2 @ d @ y3"
    and r3: "rmatch [Cap, Lit e, Ws, Lit f] y3 = Some (caps1, r)"
    by auto
  from rmatch_Cap_decomp [OF r3] obtain p caps2 y4 where
    c2: "caps1 = p # caps2" and y3: "y3 = p @ y4"
    and r4: "rmatch [Lit e, Ws, Lit f] y4 = Some (caps2, r)"
    and mp: "\<forall>u v. p = u @ v \<and> v \<noteq> [] \<longrightarrow> rmatch [Lit e, Ws, Lit f] (v @ y4) = None"
    by auto
  from rmatch_LWL_decomp [OF lits(3) r4] obtain ws3 y5 where
    w3: "\<forall>s \<in> set ws3. is_space s" and y4: "y4 = e @ ws3 @ f @ y5"
    and r5: "rmatch [] y5 = Some (caps2, r)"
    by auto
  from r5 have e5: "caps2 = []" "y5 = r" by simp_all
  have y4': "y4 = e @ ws3 @ f @ r" by (simp only: y4 e5)
  have y2': "y2 = c @ ws2 @ d @ p @ e @ ws3 @ f @ r" by (simp only: y2 y3 y4')
  show ?thesis
  proof (rule that [of ws1 n ws2 p ws3])
    show "x = a @ ws1 @ b @ n @ c @ ws2 @ d @ p @ e @ ws3 @ f @ r"
      by (simp only: x y1 y2')
    show "caps = [n, p]" by (simp only: c1 c2 e5)
    show "\<forall>s \<in> set ws1. is_space s" "\<forall>s \<in> set ws2. is_space s" "\<forall>s \<in> set ws3. is_space s"
      by (fact w1 w2 w3)+
    show "rmatch [Lit c, Ws, Lit d, Cap, Lit e, Ws, Lit f]
            (v @ c @ ws2 @ d @ p @ e @ ws3 @ f @ r) = None" if "n = u @ v" "v \<noteq> []" for u v
      using mn that unfolding y2' by blast
    show "rmatch [Lit e, Ws, Lit f] (v @ e @ ws3 @ f @ r) = None" if "p = u @ v" "v \<noteq> []" for u v
      using mp that unfolding y4' by blast
  qed
qed

lemma rmatch_tag_stable:
  assumes lits: "tag_lit a" "tag_lit b" "tag_lit c" "tag_lit d" "tag_lit e" "tag_lit f"
    and clash: "\<not> prefix d c" "\<not> prefix c d" "\<not> prefix f e" "\<not> prefix e f"
    and m: "rmatch [Lit a, Ws, Lit b, Cap, Lit c, Ws, Lit d, Cap, Lit e, Ws, Lit f] x
              = Some (caps, r)"
  shows "rmatch [Lit a, Ws, Lit b, Cap, Lit c, Ws, Lit d, Cap, Lit e, Ws, Lit f] (x @ ext)
           = Some (caps, r @ ext)"
proof -
  show ?thesis
  proof (rule rmatch_tag_decomp [OF lits(2,4,6) m])
  fix ws1 n ws2 p ws3
  assume x: "x = a @ ws1 @ b @ n @ c @ ws2 @ d @ p @ e @ ws3 @ f @ r" and caps: "caps = [n, p]"
    and w: "\<forall>s \<in> set ws1. is_space s" "\<forall>s \<in> set ws2. is_space s" "\<forall>s \<in> set ws3. is_space s"
    and mn: "\<And>u v. n = u @ v \<Longrightarrow> v \<noteq> [] \<Longrightarrow>
                 rmatch [Lit c, Ws, Lit d, Cap, Lit e, Ws, Lit f]
                   (v @ c @ ws2 @ d @ p @ e @ ws3 @ f @ r) = None"
    and mp: "\<And>u v. p = u @ v \<Longrightarrow> v \<noteq> [] \<Longrightarrow>
                 rmatch [Lit e, Ws, Lit f] (v @ e @ ws3 @ f @ r) = None"
  have e3: "rmatch [Lit e, Ws, Lit f] (e @ ws3 @ f @ t) = Some ([], t)" for t
    by (simp only: rmatch_Lit_append rmatch_Ws_Lit_skip [OF lits(6) w(3)] rmatch.simps(1))
  have mp': "rmatch [Lit e, Ws, Lit f] (v @ e @ ws3 @ f @ r @ ext) = None"
    if "p = u @ v" "v \<noteq> []" for u v
  proof (rule rmatch_LWL_none_stable [OF lits(5,6,5) clash(3,4) that(2)])
    show "rmatch [] (u' @ e @ ws3 @ f @ r) \<noteq> None" for u' by simp
    show "rmatch [Lit e, Ws, Lit f] (v @ e @ ws3 @ f @ r) = None"
      using that by (rule mp)
  qed
  have e2: "rmatch [Cap, Lit e, Ws, Lit f] (p @ e @ ws3 @ f @ r @ ext) = Some ([p], r @ ext)"
    by (rule rmatch_Cap_first [OF e3 mp'])
  have e2': "rmatch [Lit c, Ws, Lit d, Cap, Lit e, Ws, Lit f]
               (c @ ws2 @ d @ p @ e @ ws3 @ f @ r @ ext) = Some ([p], r @ ext)"
    by (simp only: rmatch_Lit_append rmatch_Ws_Lit_skip [OF lits(4) w(2)] e2)
  have mn': "rmatch [Lit c, Ws, Lit d, Cap, Lit e, Ws, Lit f]
               (v @ c @ ws2 @ d @ p @ e @ ws3 @ f @ r @ ext) = None"
    if "n = u @ v" "v \<noteq> []" for u v
  proof -
    have found: "rmatch [Cap, Lit e, Ws, Lit f] (u' @ c @ ws2 @ d @ p @ e @ ws3 @ f @ r) \<noteq> None"
      for u'
    proof -
      from rmatch_Cap_find [OF e3 [of r], of "u' @ c @ ws2 @ d @ p"]
      obtain r' where "rmatch [Cap, Lit e, Ws, Lit f]
                         ((u' @ c @ ws2 @ d @ p) @ e @ ws3 @ f @ r) = Some r'" ..
      then show ?thesis by (simp only: append_assoc option.distinct not_False_eq_True)
    qed
    have none: "rmatch [Lit c, Ws, Lit d, Cap, Lit e, Ws, Lit f]
                  (v @ c @ ws2 @ d @ p @ e @ ws3 @ f @ r) = None"
      using that by (rule mn)
    have "rmatch [Lit c, Ws, Lit d, Cap, Lit e, Ws, Lit f]
            (v @ c @ (ws2 @ d @ p @ e @ ws3 @ f @ r) @ ext) = None"
    proof (rule rmatch_LWL_none_stable [OF lits(3,4,3) clash(1,2) that(2)])
      show "rmatch [Cap, Lit e, Ws, Lit f] (u' @ c @ ws2 @ d @ p @ e @ ws3 @ f @ r) \<noteq> None"
        for u' by (rule found)
      show "rmatch [Lit c, Ws, Lit d, Cap, Lit e, Ws, Lit f]
              (v @ c @ ws2 @ d @ p @ e @ ws3 @ f @ r) = None" by (rule none)
    qed
    then show ?thesis by (simp only: append_assoc)
  qed
  have e1: "rmatch [Cap, Lit c, Ws, Lit d, Cap, Lit e, Ws, Lit f]
              (n @ c @ ws2 @ d @ p @ e @ ws3 @ f @ r @ ext) = Some ([n, p], r @ ext)"
    by (rule rmatch_Cap_first [OF e2' mn'])
  have "rmatch [Lit a, Ws, Lit b, Cap, Lit c, Ws, Lit d, Cap, Lit e, Ws, Lit f]
          (a @ ws1 @ b @ n @ c @ ws2 @ d @ p @ e @ ws3 @ f @ r @ ext) = Some ([n, p], r @ ext)"
    by (simp only: rmatch_Lit_append rmatch_Ws_Lit_skip [OF lits(2) w(1)] e1)
  then show ?thesis
    by (simp only: x caps append_assoc)
  qed
qed

lemma rmatch_tag_earlier_none:
  assumes lits: "tag_lit a" "tag_lit b"
    and clash: "\<not> prefix b a" "\<not> prefix a b"
    and m: "rmatch (Lit a # Ws # Lit b # Cap # its) x = Some res"
    and v: "v \<noteq> []"
    and none: "rmatch (Lit a # Ws # Lit b # Cap # its) (v @ x) = None"
  shows "rmatch (Lit a # Ws # Lit b # Cap # its) (v @ x @ ext) = None"
proof -
  from rmatch_LWL_decomp [OF lits(2) m] obtain ws1 y1 where
    x: "x = a @ ws1 @ b @ y1" and r1: "rmatch (Cap # its) y1 = Some res"
    by auto
  have found: "rmatch (Cap # its) (u @ a @ ws1 @ b @ y1) \<noteq> None" for u
    using rmatch_Cap_find_later [OF r1, of "u @ a @ ws1 @ b"]
    by (simp only: append_assoc not_False_eq_True)
  have "rmatch (Lit a # Ws # Lit b # Cap # its) (v @ a @ (ws1 @ b @ y1) @ ext) = None"
  proof (rule rmatch_LWL_none_stable [OF lits(1,2,1) clash v])
    show "rmatch (Cap # its) (u @ a @ ws1 @ b @ y1) \<noteq> None" for u by (rule found)
    show "rmatch (Lit a # Ws # Lit b # Cap # its) (v @ a @ ws1 @ b @ y1) = None"
      using none by (simp only: x)
  qed
  then show ?thesis by (simp only: x append_assoc)
qed


lemma toolUseRegex_stable:
  assumes "rmatch toolUseRegex x = Some (caps, r)"
  shows "rmatch toolUseRegex (x @ ext) = Some (caps, r @ ext)"
  using assms unfolding toolUseRegex_def
  by (rule rmatch_tag_stable [OF tag_lits, rotated 4]) simp_all

lemma toolUseRegex_earlier_none:
  assumes "rmatch toolUseRegex x = Some res" and "v \<noteq> []"
    and "rmatch toolUseRegex (v @ x) = None"
  shows "rmatch toolUseRegex (v @ x @ ext) = None"
  using assms unfolding toolUseRegex_def
  by (intro rmatch_tag_earlier_none [OF tag_lits(1,2), where x = x and res = res]) simp_all

lemma regex_exec_decomp:
  "regex_exec re s = Some m \<Longrightarrow>
     \<exists>x caps r. s = before m @ x \<and> rmatch re x = Some (caps, r) \<and> groups m = caps
       \<and> after m = r \<and> matched m = take (length x - length r) x"
proof (induction s arbitrary: m)
  case Nil
  then show ?case by (auto simp: match_here_def split: option.splits)
next
  case (Cons c cs)
  show ?case
  proof (cases "match_here re (c # cs)")
    case (Some m0)
    with Cons.prems have "m0 = m" by simp
    with Some show ?thesis by (auto simp: match_here_def split: option.splits)
  next
    case None
    with Cons.prems obtain m' where m': "regex_exec re cs = Some m'"
      and m: "m = m'\<lparr>before := c # before m'\<rparr>"
      by auto
    from Cons.IH [OF m'] show ?thesis by (auto simp: m)
  qed
qed

lemma match_here_stable:
  assumes "match_here toolUseRegex s = Some m"
  shows "match_here toolUseRegex (s @ ext) = Some (m\<lparr>after := after m @ ext\<rparr>)"
proof -
  from assms obtain caps r where r: "rmatch toolUseRegex s = Some (caps, r)"
    and m: "m = \<lparr>before = [], groups = caps, matched = take (length s - length r) s, after = r\<rparr>"
    by (auto simp: match_here_def split: option.splits)
  have "length r \<le> length s" using r by (rule rmatch_length)
  then have "take (length (s @ ext) - length (r @ ext)) (s @ ext) = take (length s - length r) s"
    by simp
  then show ?thesis
    using toolUseRegex_stable [OF r, of ext] by (simp add: match_here_def m)
qed

lemma regex_exec_stable:
  "regex_exec toolUseRegex s = Some m \<Longrightarrow>
     regex_exec toolUseRegex (s @ ext) = Some (m\<lparr>after := after m @ ext\<rparr>)"
proof (induction s arbitrary: m)
  case Nil
  then show ?case by (simp add: match_here_def toolUseRegex_def)
next
  case (Cons c cs)
  show ?case
  proof (cases "match_here toolUseRegex (c # cs)")
    case (Some m0)
    with Cons.prems have "m0 = m" by simp
    with Some have "match_here toolUseRegex ((c # cs) @ ext) = Some (m\<lparr>after := after m @ ext\<rparr>)"
      by (simp only: match_here_stable)
    then show ?thesis by simp
  next
    case None
    with Cons.prems obtain m' where m': "regex_exec toolUseRegex cs = Some m'"
      and m: "m = m'\<lparr>before := c # before m'\<rparr>"
      by auto
    from regex_exec_decomp [OF m'] obtain x caps r where
      cs: "cs = before m' @ x" and r: "rmatch toolUseRegex x = Some (caps, r)"
      by auto
    have "rmatch toolUseRegex ((c # before m') @ x) = None"
      using None by (cases "rmatch toolUseRegex (c # cs)") (auto simp: match_here_def cs)
    then have "rmatch toolUseRegex ((c # before m') @ x @ ext) = None"
      by (intro toolUseRegex_earlier_none [OF r]) simp_all
    then have "match_here toolUseRegex (c # cs @ ext) = None"
      by (simp add: match_here_def cs)
    then show ?thesis
      using Cons.IH [OF m'] by (simp add: m)
  qed
qed

lemma parse_loop_stable:
  "parse_loop JSON_parse (s @ ext) =
     (case parse_loop JSON_parse s of
        (bs, rem) \<Rightarrow>
          (case parse_loop JSON_parse (rem @ ext) of (bs', rem') \<Rightarrow> (bs @ bs', rem')))"
proof (induction JSON_parse s rule: parse_loop.induct)
  case (1 JSON_parse s)
  show ?case
  proof (cases "regex_exec toolUseRegex s")
    case None
    then have "parse_loop JSON_parse s = ([], s)"
      by (simp add: parse_loop.simps)
    then show ?thesis by (simp split: prod.splits)
  next
    case (Some m)
    let ?m' = "m\<lparr>after := after m @ ext\<rparr>"
    have ex: "regex_exec toolUseRegex (s @ ext) = Some ?m'"
      using Some by (rule regex_exec_stable)
    have same: "textBefore ?m' = textBefore m" "toolBlock JSON_parse ?m' = toolBlock JSON_parse m"
      by (simp_all add: textBefore_def toolBlock_def split: option.splits)
    have ih: "parse_loop JSON_parse (after m @ ext) =
       (case parse_loop JSON_parse (after m) of
          (bs, rem) \<Rightarrow>
            (case parse_loop JSON_parse (rem @ ext) of (bs', rem') \<Rightarrow> (bs @ bs', rem')))"
      using Some by (rule "1.IH")
    have l: "parse_loop JSON_parse (s @ ext) =
       (case parse_loop JSON_parse (after m @ ext) of
          (blocks, remaining) \<Rightarrow>
            (textBefore m @ toolBlock JSON_parse m # blocks, remaining))"
      by (subst parse_loop.simps) (simp add: ex same)
    have r: "parse_loop JSON_parse s =
       (case parse_loop JSON_parse (after m) of
          (blocks, remaining) \<Rightarrow>
            (textBefore m @ toolBlock JSON_parse m # blocks, remaining))"
      by (subst parse_loop.simps) (simp add: Some)
    show ?thesis
      unfolding l r ih by (simp split: prod.splits)
  qed
qed

lemma parse_loop_nonpartial:
  "b \<in> set (fst (parse_loop JSON_parse s)) \<Longrightarrow> \<not> partial b"
proof (induction JSON_parse s arbitrary: b rule: parse_loop.induct)
  case (1 JSON_parse s)
  show ?case
  proof (cases "regex_exec toolUseRegex s")
    case None
    then have "parse_loop JSON_parse s = ([], s)"
      by (simp add: parse_loop.simps)
    with "1.prems" show ?thesis by simp
  next
    case (Some m)
    have r: "parse_loop JSON_parse s =
       (case parse_loop JSON_parse (after m) of
          (blocks, remaining) \<Rightarrow>
            (textBefore m @ toolBlock JSON_parse m # blocks, remaining))"
      by (subst parse_loop.simps) (simp add: Some)
    from "1.prems" consider "b \<in> set (textBefore m)" | "b = toolBlock JSON_parse m"
      | "b \<in> set (fst (parse_loop JSON_parse (after m)))"
      unfolding r by (auto split: prod.splits)
    then show ?thesis
    proof cases
      case 1
      then show ?thesis by (auto simp: textBefore_def split: if_splits)
    next
      case 2
      then show ?thesis by (auto simp: toolBlock_def split: option.splits)
    next
      case 3
      show ?thesis by (rule "1.IH" [OF Some 3])
    qed
  qed
qed

section \<open>One tool result per executed block\<close>

text \<open>The text that a chunk adds to the buffer.\<close>

fun chunkText :: "chunk \<Rightarrow> jstring" where
  "chunkText (TextChunk t) = (case t of None \<Rightarrow> [] | Some x \<Rightarrow> x)"
| "chunkText (UsageChunk u) = []"
| "chunkText ReasoningChunk = []"

lemma parse_shape:
  obtains tail where
    "parseAssistantMessage JSON_parse s = fst (parse_loop JSON_parse s) @ tail" "open_tail tail"
proof -
  obtain bs rem where p: "parse_loop JSON_parse s = (bs, rem)"
    by (cases "parse_loop JSON_parse s")
  let ?t1 = "if rem \<noteq> [] \<and> trim rem \<noteq> [] then [TextBlock (trim rem) True] else []"
  show ?thesis
  proof (cases "bs @ ?t1 = [] \<and> trim s \<noteq> []")
    case True
    then have "parseAssistantMessage JSON_parse s = fst (parse_loop JSON_parse s) @ [TextBlock s True]"
      by (auto simp: parseAssistantMessage_def p Let_def split: if_splits)
    then show ?thesis
      by (rule that) (simp add: open_tail_def)
  next
    case False
    then have "parseAssistantMessage JSON_parse s = fst (parse_loop JSON_parse s) @ ?t1"
      by (auto simp: parseAssistantMessage_def p Let_def split: if_splits)
    then show ?thesis
      by (rule that) (simp add: open_tail_def)
  qed
qed

lemma invocations_open_tail: "open_tail tail \<Longrightarrow> invocations tail = []"
  by (auto simp: open_tail_def)

lemma invocations_parse:
  "invocations (parseAssistantMessage JSON_parse s) = invocations (fst (parse_loop JSON_parse s))"
proof -
  obtain tail where "parseAssistantMessage JSON_parse s = fst (parse_loop JSON_parse s) @ tail"
    "open_tail tail"
    by (rule parse_shape)
  then show ?thesis
    by (simp add: invocations_append invocations_open_tail)
qed

lemma parse_loop_Nil: "parse_loop JSON_parse [] = ([], [])"
  by (simp add: parse_loop.simps match_here_def toolUseRegex_def)

lemma parse_Nil: "parseAssistantMessage JSON_parse [] = []"
  by (simp add: parseAssistantMessage_def parse_loop_Nil trim_def)

lemma present_after_chunk:
  fixes env :: task_env and st :: task and buf t :: jstring
  assumes cur: "currentStreamingContentIndex st = length (fst (parse_loop (json_parse env) buf))"
  defines "new \<equiv> fst (parse_loop (json_parse env) (snd (parse_loop (json_parse env) buf) @ t))"
  defines "st' \<equiv> presentAssistantMessage env
                    (st\<lparr>assistantMessageContent := parseAssistantMessage (json_parse env) (buf @ t)\<rparr>)"
  shows "fst (parse_loop (json_parse env) (buf @ t)) = fst (parse_loop (json_parse env) buf) @ new"
    and "assistantMessageContent st' = parseAssistantMessage (json_parse env) (buf @ t)"
    and "currentStreamingContentIndex st' = length (fst (parse_loop (json_parse env) (buf @ t)))"
    and "toolCalls st' = toolCalls st @ callsOf env (invocations new)"
    and "apiConversationHistory st'
           = apiConversationHistory st @ toolMessages env (toolCalls st) (invocations new)"
proof -
  let ?dec = "json_parse env"
  let ?np = "fst (parse_loop ?dec buf)"
  let ?st1 = "st\<lparr>assistantMessageContent := parseAssistantMessage ?dec (buf @ t)\<rparr>"
  show split: "fst (parse_loop ?dec (buf @ t)) = ?np @ new"
    by (simp add: parse_loop_stable [of ?dec buf t] new_def split: prod.splits)
  obtain tail where tail: "parseAssistantMessage ?dec (buf @ t) = (?np @ new) @ tail"
    "open_tail tail"
    using parse_shape [of ?dec "buf @ t"] unfolding split by blast
  have np: "\<forall>b \<in> set new. \<not> partial b"
    unfolding new_def by (blast dest: parse_loop_nonpartial)
  have run: "assistantMessageContent (presentAssistantMessage env ?st1) = ?np @ new @ tail
       \<and> currentStreamingContentIndex (presentAssistantMessage env ?st1) = length (?np @ new)
       \<and> apiConversationHistory (presentAssistantMessage env ?st1)
           = apiConversationHistory ?st1 @ toolMessages env (toolCalls ?st1) (invocations new)
       \<and> toolCalls (presentAssistantMessage env ?st1)
           = toolCalls ?st1 @ callsOf env (invocations new)
       \<and> (tail = [] \<longrightarrow> userMessageContentReady (presentAssistantMessage env ?st1))"
    by (rule present_run) (use tail cur np in simp_all)
  show "assistantMessageContent st' = parseAssistantMessage ?dec (buf @ t)"
    using run tail by (simp add: st'_def)
  show "currentStreamingContentIndex st' = length (fst (parse_loop ?dec (buf @ t)))"
    using run by (simp add: st'_def split)
  show "toolCalls st' = toolCalls st @ callsOf env (invocations new)"
    using run by (simp add: st'_def)
  show "apiConversationHistory st'
           = apiConversationHistory st @ toolMessages env (toolCalls st) (invocations new)"
    using run by (simp add: st'_def)
qed

lemma consumeStream_effect:
  assumes "\<not> abort st"
    and "currentStreamingContentIndex st = length (fst (parse_loop (json_parse env) buf))"
    and "assistantMessageContent st = parseAssistantMessage (json_parse env) buf"
    and "consumeStream env cs buf st = (st', msg, ab)"
  shows "msg = buf @ concat (map chunkText cs)
       \<and> assistantMessageContent st' = parseAssistantMessage (json_parse env) msg
       \<and> currentStreamingContentIndex st' = length (fst (parse_loop (json_parse env) msg))
       \<and> (\<exists>new. fst (parse_loop (json_parse env) msg)
                   = fst (parse_loop (json_parse env) buf) @ new
               \<and> toolCalls st' = toolCalls st @ callsOf env (invocations new)
               \<and> apiConversationHistory st'
                   = apiConversationHistory st @ toolMessages env (toolCalls st) (invocations new))"
  using assms
proof (induction cs arbitrary: st buf)
  case Nil
  then show ?case by (auto simp: callsOf_def intro: exI [of _ "[]"])
next
  case (Cons c cs)
  show ?case
  proof (cases c)
    case (TextChunk t)
    let ?t = "case t of None \<Rightarrow> [] | Some x \<Rightarrow> x"
    let ?dec = "json_parse env"
    let ?st1 = "presentAssistantMessage env
                  (st\<lparr>assistantMessageContent := parseAssistantMessage ?dec (buf @ ?t)\<rparr>)"
    let ?new1 = "fst (parse_loop ?dec (snd (parse_loop ?dec buf) @ ?t))"
    note step = present_after_chunk [OF Cons.prems(2), of ?t]
    have c: "consumeStream env cs (buf @ ?t) ?st1 = (st', msg, ab)"
      using Cons.prems(1,4) TextChunk by (simp add: Let_def)
    have "loopFields ?st1 = loopFields (st\<lparr>assistantMessageContent := parseAssistantMessage ?dec (buf @ ?t)\<rparr>)"
      by simp
    then have na: "\<not> abort ?st1"
      using Cons.prems(1) by (simp add: loopFields_def)
    from Cons.IH [OF na step(3) step(2) c] obtain new2 where
      ih: "msg = (buf @ ?t) @ concat (map chunkText cs)"
      "assistantMessageContent st' = parseAssistantMessage ?dec msg"
      "currentStreamingContentIndex st' = length (fst (parse_loop ?dec msg))"
      "fst (parse_loop ?dec msg) = fst (parse_loop ?dec (buf @ ?t)) @ new2"
      "toolCalls st' = toolCalls ?st1 @ callsOf env (invocations new2)"
      "apiConversationHistory st'
         = apiConversationHistory ?st1 @ toolMessages env (toolCalls ?st1) (invocations new2)"
      by blast
    have "fst (parse_loop ?dec msg) = fst (parse_loop ?dec buf) @ (?new1 @ new2)"
      by (simp add: ih(4) step(1))
    moreover have "toolCalls st' = toolCalls st @ callsOf env (invocations (?new1 @ new2))"
      by (simp add: ih(5) step(4) invocations_append callsOf_append)
    moreover have "apiConversationHistory st'
         = apiConversationHistory st @ toolMessages env (toolCalls st) (invocations (?new1 @ new2))"
      by (simp add: ih(6) step(4,5) invocations_append toolMessages_append)
    ultimately show ?thesis
      using ih(1,2,3) TextChunk by auto
  next
    case (UsageChunk u)
    let ?st1 = "emitEvent (TokenUsage u) st"
    have c: "consumeStream env cs buf ?st1 = (st', msg, ab)"
      using Cons.prems(1,4) UsageChunk by simp
    have "\<not> abort ?st1"
      "currentStreamingContentIndex ?st1 = length (fst (parse_loop (json_parse env) buf))"
      "assistantMessageContent ?st1 = parseAssistantMessage (json_parse env) buf"
      using Cons.prems(1,2,3) by (simp_all add: emitEvent_def)
    from Cons.IH [OF this c] show ?thesis
      using UsageChunk by (auto simp: emitEvent_def)
  next
    case ReasoningChunk
    have c: "consumeStream env cs buf st = (st', msg, ab)"
      using Cons.prems(1,4) ReasoningChunk by simp
    from Cons.IH [OF Cons.prems(1,2,3) c] show ?thesis
      using ReasoningChunk by auto
  qed
qed


lemma toolMessages_roles:
  "map role (toolMessages env trace invs) = replicate (length invs) User"
  by (induction invs arbitrary: trace)
     (auto simp: resultMessage_def userText_def split: sum.splits)

text \<open>
  C1 as amended. A stream consumed from the state in which a request starts (no parsed
  content, cursor 0), with the loop not aborted, whatever the cut of the text into
  chunks. At the end the parsed content is the parse of the whole text; the calls made
  are those of the tool-invocation blocks of that content that have a non-empty name
  and a truthy input, one call per block, in the order of the blocks; and the history
  has grown by exactly one message per such block, in the same order, each with the user
  role (the tool's result, or the failure text if the call threw).
\<close>

theorem tool_results_once_in_order:
  assumes "\<not> abort st"
    and "currentStreamingContentIndex st = 0"
    and "assistantMessageContent st = []"
    and "consumeStream env chunks [] st = (st', msg, aborted)"
  shows "msg = concat (map chunkText chunks)
       \<and> assistantMessageContent st' = parseAssistantMessage (json_parse env) msg
       \<and> toolCalls st' = toolCalls st @ callsOf env (invocations (assistantMessageContent st'))
       \<and> apiConversationHistory st'
           = apiConversationHistory st
             @ toolMessages env (toolCalls st) (invocations (assistantMessageContent st'))
       \<and> map role (toolMessages env (toolCalls st) (invocations (assistantMessageContent st')))
           = replicate (length (invocations (assistantMessageContent st'))) User"
proof -
  have "currentStreamingContentIndex st = length (fst (parse_loop (json_parse env) []))"
    "assistantMessageContent st = parseAssistantMessage (json_parse env) []"
    using assms(2,3) by (simp_all add: parse_loop_Nil parse_Nil)
  from consumeStream_effect [OF assms(1) this assms(4)] obtain new where
    e: "msg = concat (map chunkText chunks)"
    "assistantMessageContent st' = parseAssistantMessage (json_parse env) msg"
    "fst (parse_loop (json_parse env) msg) = new"
    "toolCalls st' = toolCalls st @ callsOf env (invocations new)"
    "apiConversationHistory st'
       = apiConversationHistory st @ toolMessages env (toolCalls st) (invocations new)"
    by (auto simp: parse_loop_Nil)
  have "invocations (assistantMessageContent st') = invocations new"
    by (simp add: e(2) invocations_parse e(3))
  then show ?thesis
    using e by (simp add: toolMessages_roles)
qed

text \<open>
  C1 as stated: one result per tool-invocation block. A block whose decoded input is
  falsy (here \<^verbatim>\<open>null\<close>) or whose name is empty is skipped by the guard
  \<^verbatim>\<open>if (content.name && content.input)\<close>: the block is in the parsed content and
  nothing is appended to the history.
\<close>

definition decode_null :: "jstring \<Rightarrow> json option" where
  "decode_null s = (if s = js ''null'' then Some JNull else None)"

definition null_input_text :: jstring where
  "null_input_text = js ''<tool_use><name>list_files</name><input>null</input></tool_use>''"

lemma null_input_parse:
  "parseAssistantMessage decode_null null_input_text
     = [ToolUseBlock (js ''list_files'') JNull False]"
  by (simp add: null_input_text_def decode_null_def parseAssistantMessage_def
      parse_loop.simps toolUseRegex_def is_space_def match_here_def trim_def textBefore_def
      toolBlock_def)

theorem falsy_input_counterexample:
  "assistantMessageContent
     (fst (consumeStream (example_env\<lparr>json_parse := decode_null\<rparr>)
             [TextChunk (Some null_input_text)] [] example_task))
     = [ToolUseBlock (js ''list_files'') JNull False]
   \<and> apiConversationHistory
       (fst (consumeStream (example_env\<lparr>json_parse := decode_null\<rparr>)
               [TextChunk (Some null_input_text)] [] example_task))
     = apiConversationHistory example_task"
proof -
  let ?env = "example_env\<lparr>json_parse := decode_null\<rparr>"
  obtain st' msg ab where
    c: "consumeStream ?env [TextChunk (Some null_input_text)] [] example_task = (st', msg, ab)"
    by (cases "consumeStream ?env [TextChunk (Some null_input_text)] [] example_task") auto
  have fresh: "\<not> abort example_task"
    "currentStreamingContentIndex example_task = length (fst (parse_loop (json_parse ?env) []))"
    "assistantMessageContent example_task = parseAssistantMessage (json_parse ?env) []"
    by (simp_all add: example_task_def parse_loop_Nil parse_Nil)
  from consumeStream_effect [OF fresh c] obtain new where
    e: "msg = null_input_text"
    "assistantMessageContent st' = parseAssistantMessage decode_null msg"
    "fst (parse_loop decode_null msg) = new"
    "apiConversationHistory st'
       = apiConversationHistory example_task
         @ toolMessages ?env (toolCalls example_task) (invocations new)"
    by (auto simp: parse_loop_Nil)
  have "invocations new = invocations (parseAssistantMessage decode_null null_input_text)"
    using e(1,3) by (simp add: invocations_parse)
  then have "invocations new = []"
    by (simp add: null_input_parse)
  then show ?thesis
    unfolding c fst_conv using e by (simp add: null_input_parse)
qed

definition two_tools_chunks :: "chunk list" where
  "two_tools_chunks =
     [TextChunk (Some (js ''Reading <tool_use><name>read_file</name>'')),
      UsageChunk (Usage (Some 10) (Some 20) None),
      TextChunk (Some (js ''<input>{}</input></tool_use><tool_use><name>list_files</name><input>{}</input></tool_use> Done''))]"

theorem tool_results_once_in_order_witness:
  "assistantMessageContent (fst (consumeStream example_env two_tools_chunks [] example_task))
     = [TextBlock (js ''Reading'') False,
        ToolUseBlock (js ''read_file'') (JObject []) False,
        ToolUseBlock (js ''list_files'') (JObject []) False,
        TextBlock (js ''Done'') True]
   \<and> toolCalls (fst (consumeStream example_env two_tools_chunks [] example_task))
     = [RegistryExecuteTool (js ''read_file'') (JObject []),
        RegistryExecuteTool (js ''list_files'') (JObject [])]
   \<and> apiConversationHistory (fst (consumeStream example_env two_tools_chunks [] example_task))
     = [userText (js ''<task>hi</task>''),
        userText (js ''Tool \"read_file\" result: Task completed''),
        userText (js ''Tool \"list_files\" result: Task completed'')]"
proof -
  obtain st' msg ab where
    c: "consumeStream example_env two_tools_chunks [] example_task = (st', msg, ab)"
    by (cases "consumeStream example_env two_tools_chunks [] example_task") auto
  have fresh: "\<not> abort example_task" "currentStreamingContentIndex example_task = 0"
    "assistantMessageContent example_task = []"
    by (simp_all add: example_task_def)
  have dec: "json_parse example_env = decode_empty_object" "\<not> mcpHub example_env"
    "registry_executeTool example_env = (\<lambda>trace. ToolResult True (js ''Task completed''))"
    by (simp_all add: example_env_def)
  have p: "parseAssistantMessage decode_empty_object (concat (map chunkText two_tools_chunks))
     = [TextBlock (js ''Reading'') False,
        ToolUseBlock (js ''read_file'') (JObject []) False,
        ToolUseBlock (js ''list_files'') (JObject []) False,
        TextBlock (js ''Done'') True]"
    by (simp add: two_tools_chunks_def decode_empty_object_def parseAssistantMessage_def
      parse_loop.simps toolUseRegex_def is_space_def match_here_def trim_def textBefore_def
      toolBlock_def)
  have h: "toolCalls example_task = []"
    "apiConversationHistory example_task = [userText (js ''<task>hi</task>'')]"
    by (simp_all add: example_task_def)
  from tool_results_once_in_order [OF fresh c]
  show ?thesis
    unfolding c fst_conv
    by (simp add: dec p h callsOf_def toolCall_def toolOutcome_def resultMessage_def)
qed

end
